theory Spec2Isabelle
  imports Main
begin

section \<open>The JavaScript \<open>Map\<close>: an insertion-ordered association list\<close>

text \<open>
  \<open>LRUCache\<close> relies on the iteration order of a JavaScript \<open>Map\<close> (insertion order;
  \<open>set\<close> on a key that is present keeps its position, \<open>set\<close> on a new key appends), so the
  cache's map is a list of pairs, oldest insertion first. Times (\<open>Date.now()\<close>) and counters
  are JavaScript numbers holding integers and are modelled as \<open>int\<close>.
\<close>

definition Map_get :: "('k \<times> 'v) list \<Rightarrow> 'k \<Rightarrow> 'v option" where
  "Map_get m k = map_of m k"

definition Map_has :: "('k \<times> 'v) list \<Rightarrow> 'k \<Rightarrow> bool" where
  "Map_has m k = (map_of m k \<noteq> None)"

definition Map_delete :: "('k \<times> 'v) list \<Rightarrow> 'k \<Rightarrow> ('k \<times> 'v) list" where
  "Map_delete m k = filter (\<lambda>p. fst p \<noteq> k) m"

fun Map_set :: "('k \<times> 'v) list \<Rightarrow> 'k \<Rightarrow> 'v \<Rightarrow> ('k \<times> 'v) list" where
  "Map_set [] k v = [(k, v)]"
| "Map_set (p # ps) k v = (if fst p = k then (k, v) # ps else p # Map_set ps k v)"

definition Map_size :: "('k \<times> 'v) list \<Rightarrow> int" where
  "Map_size m = int (length m)"

text \<open>\<open>m.keys().next().value\<close>: the first key in iteration order, \<open>undefined\<close> on an empty map.\<close>

definition Map_first_key :: "('k \<times> 'v) list \<Rightarrow> 'k option" where
  "Map_first_key m = (case m of [] \<Rightarrow> None | p # _ \<Rightarrow> Some (fst p))"

text \<open>
  JavaScript truthiness of a string, as tested by \<open>if (firstKey)\<close> and \<open>if (clientId)\<close>:
  the empty string is falsy (and so is \<open>undefined\<close>, the \<open>None\<close> branch at each use).
\<close>

definition truthy :: "string \<Rightarrow> bool" where
  "truthy s = (s \<noteq> [])"

section \<open>src/cache/LRUCache.ts\<close>

record 'v CacheEntry =
  entryValue :: 'v
  timestamp :: int
  accessCount :: int
  lastAccessed :: int

text \<open>
  \<open>CacheStats\<close> without \<open>averageResponseTime\<close>: the rolling floating-point average of
  \<open>updateResponseTime\<close> and its sample array are not modelled; no other field depends on them.
\<close>

record CacheStats =
  hits :: int
  misses :: int
  currentSize :: int
  statsMaxSize :: int
  totalRequests :: int

record 'v LRUCache =
  cache :: "(string \<times> 'v CacheEntry) list"
  maxSize :: int
  ttl :: int
  stats :: CacheStats

definition new_LRUCache :: "int \<Rightarrow> int \<Rightarrow> 'v LRUCache" where
  "new_LRUCache maxSize0 ttlMs =
     \<lparr>cache = [], maxSize = maxSize0, ttl = ttlMs,
      stats = \<lparr>hits = 0, misses = 0, currentSize = 0, statsMaxSize = maxSize0,
               totalRequests = 0\<rparr>\<rparr>"

text \<open>The expiry test shared by \<open>get\<close>, \<open>has\<close> and \<open>cleanupExpired\<close>:
  \<open>now - entry.timestamp > this.ttl\<close>.\<close>

definition expired :: "'v LRUCache \<Rightarrow> int \<Rightarrow> 'v CacheEntry \<Rightarrow> bool" where
  "expired c now entry = (now - timestamp entry > ttl c)"

text \<open>\<open>get(key)\<close> at clock reading \<open>now\<close>; the result \<open>None\<close> is the source's \<open>null\<close>.\<close>

definition LRUCache_get :: "'v LRUCache \<Rightarrow> int \<Rightarrow> string \<Rightarrow> 'v option \<times> 'v LRUCache" where
  "LRUCache_get c now key =
     (let st = (stats c)\<lparr>totalRequests := totalRequests (stats c) + 1\<rparr> in
      case Map_get (cache c) key of
        None \<Rightarrow> (None, c\<lparr>stats := st\<lparr>misses := misses st + 1\<rparr>\<rparr>)
      | Some entry \<Rightarrow>
          if expired c now entry then
            (None, c\<lparr>cache := Map_delete (cache c) key,
                      stats := st\<lparr>currentSize := currentSize st - 1,
                                  misses := misses st + 1\<rparr>\<rparr>)
          else
            (let entry' = entry\<lparr>lastAccessed := now, accessCount := accessCount entry + 1\<rparr>
             in (Some (entryValue entry'),
                 c\<lparr>cache := Map_set (Map_delete (cache c) key) key entry',
                   stats := st\<lparr>hits := hits st + 1\<rparr>\<rparr>)))"

definition LRUCache_set :: "'v LRUCache \<Rightarrow> int \<Rightarrow> string \<Rightarrow> 'v \<Rightarrow> 'v LRUCache" where
  "LRUCache_set c now key v =
     (let entry = \<lparr>entryValue = v, timestamp = now, accessCount = 1, lastAccessed = now\<rparr> in
      if Map_has (cache c) key then
        c\<lparr>cache := Map_set (Map_delete (cache c) key) key entry\<rparr>
      else
        (let c1 = (if Map_size (cache c) \<ge> maxSize c then
                     (case Map_first_key (cache c) of
                        None \<Rightarrow> c
                      | Some firstKey \<Rightarrow>
                          if truthy firstKey then
                            c\<lparr>cache := Map_delete (cache c) firstKey,
                              stats := (stats c)\<lparr>currentSize := currentSize (stats c) - 1\<rparr>\<rparr>
                          else c)
                   else c);
             c2 = c1\<lparr>stats := (stats c1)\<lparr>currentSize := currentSize (stats c1) + 1\<rparr>\<rparr>
         in c2\<lparr>cache := Map_set (cache c2) key entry\<rparr>))"

definition LRUCache_delete :: "'v LRUCache \<Rightarrow> string \<Rightarrow> bool \<times> 'v LRUCache" where
  "LRUCache_delete c key =
     (let deleted = Map_has (cache c) key in
      if deleted then
        (True, c\<lparr>cache := Map_delete (cache c) key,
                  stats := (stats c)\<lparr>currentSize := currentSize (stats c) - 1\<rparr>\<rparr>)
      else (False, c))"

definition LRUCache_clear :: "'v LRUCache \<Rightarrow> 'v LRUCache" where
  "LRUCache_clear c =
     c\<lparr>cache := [],
       stats := (stats c)\<lparr>currentSize := 0, hits := 0, misses := 0, totalRequests := 0\<rparr>\<rparr>"

definition LRUCache_has :: "'v LRUCache \<Rightarrow> int \<Rightarrow> string \<Rightarrow> bool \<times> 'v LRUCache" where
  "LRUCache_has c now key =
     (case Map_get (cache c) key of
        None \<Rightarrow> (False, c)
      | Some entry \<Rightarrow>
          if expired c now entry then
            (False, c\<lparr>cache := Map_delete (cache c) key,
                       stats := (stats c)\<lparr>currentSize := currentSize (stats c) - 1\<rparr>\<rparr>)
          else (True, c))"

definition getStats :: "'v LRUCache \<Rightarrow> CacheStats" where
  "getStats c = stats c"

text \<open>\<open>cleanupExpired\<close>: collect the expired keys in iteration order, then delete each and
  decrement \<open>currentSize\<close> once per key.\<close>

definition cleanup_delete :: "string \<Rightarrow> 'v LRUCache \<Rightarrow> 'v LRUCache" where
  "cleanup_delete key c =
     c\<lparr>cache := Map_delete (cache c) key,
       stats := (stats c)\<lparr>currentSize := currentSize (stats c) - 1\<rparr>\<rparr>"

definition LRUCache_cleanupExpired :: "'v LRUCache \<Rightarrow> int \<Rightarrow> 'v LRUCache" where
  "LRUCache_cleanupExpired c now =
     (let keysToDelete = map fst (filter (\<lambda>p. expired c now (snd p)) (cache c))
      in fold cleanup_delete keysToDelete c)"

definition LRUCache_keys :: "'v LRUCache \<Rightarrow> string list" where
  "LRUCache_keys c = map fst (cache c)"

definition LRUCache_size :: "'v LRUCache \<Rightarrow> int" where
  "LRUCache_size c = Map_size (cache c)"

text \<open>A cache operation together with the clock reading at which it runs.\<close>

datatype 'v cache_op =
    OpGet string
  | OpSet string 'v
  | OpDelete string
  | OpClear
  | OpHas string
  | OpCleanupExpired

fun cache_step :: "'v LRUCache \<Rightarrow> int \<times> 'v cache_op \<Rightarrow> 'v LRUCache" where
  "cache_step c (now, OpGet key) = snd (LRUCache_get c now key)"
| "cache_step c (now, OpSet key v) = LRUCache_set c now key v"
| "cache_step c (now, OpDelete key) = snd (LRUCache_delete c key)"
| "cache_step c (now, OpClear) = LRUCache_clear c"
| "cache_step c (now, OpHas key) = snd (LRUCache_has c now key)"
| "cache_step c (now, OpCleanupExpired) = LRUCache_cleanupExpired c now"

definition cache_run :: "'v LRUCache \<Rightarrow> (int \<times> 'v cache_op) list \<Rightarrow> 'v LRUCache" where
  "cache_run c ops = foldl cache_step c ops"

text \<open>The representation invariant of the cache: the keys of the map are distinct, and
  \<open>stats.currentSize\<close> is the size of the map.\<close>

definition cache_inv :: "'v LRUCache \<Rightarrow> bool" where
  "cache_inv c = (distinct (map fst (cache c)) \<and> currentSize (stats c) = Map_size (cache c))"

text \<open>The entries that are not expired at a clock reading.\<close>

definition live_entries :: "'v LRUCache \<Rightarrow> int \<Rightarrow> (string \<times> 'v CacheEntry) list" where
  "live_entries c now = filter (\<lambda>p. \<not> expired c now (snd p)) (cache c)"

definition counters_agree :: "CacheStats \<Rightarrow> bool" where
  "counters_agree st = (hits st + misses st = totalRequests st)"

definition same_counters :: "CacheStats \<Rightarrow> CacheStats \<Rightarrow> bool" where
  "same_counters st st' =
     (hits st' = hits st \<and> misses st' = misses st \<and> totalRequests st' = totalRequests st)"

text \<open>If the key is in the map, its entry has the given value and insertion time.\<close>

definition holds :: "'v LRUCache \<Rightarrow> string \<Rightarrow> 'v \<Rightarrow> int \<Rightarrow> bool" where
  "holds c key v T =
     (case Map_get (cache c) key of
        None \<Rightarrow> True
      | Some entry \<Rightarrow> entryValue entry = v \<and> timestamp entry = T)"

fun overwrites :: "string \<Rightarrow> int \<times> 'v cache_op \<Rightarrow> bool" where
  "overwrites key (now, OpSet k v) = (k = key)"
| "overwrites key (now, _) = False"

text \<open>The operation does not call \<open>set\<close> with a falsy (empty) key.\<close>

fun sets_truthy_key :: "int \<times> 'v cache_op \<Rightarrow> bool" where
  "sets_truthy_key (now, OpSet k v) = truthy k"
| "sets_truthy_key (now, _) = True"

text \<open>The capacity bound: at least one slot, truthy keys only, and no more entries than
  \<open>maxSize\<close>.\<close>

definition size_inv :: "'v LRUCache \<Rightarrow> bool" where
  "size_inv c =
     (1 \<le> maxSize c \<and> list_all truthy (map fst (cache c)) \<and> Map_size (cache c) \<le> maxSize c)"

text \<open>The map is in order of last access, and no entry was accessed after time \<open>t\<close>.\<close>

definition recency_ordered :: "'v LRUCache \<Rightarrow> int \<Rightarrow> bool" where
  "recency_ordered c t =
     (sorted (map (\<lambda>p. lastAccessed (snd p)) (cache c)) \<and>
      list_all (\<lambda>p. lastAccessed (snd p) \<le> t) (cache c))"

text \<open>The clock readings of the operations never go back, starting from \<open>t\<close>.\<close>

fun clock_from :: "int \<Rightarrow> (int \<times> 'v cache_op) list \<Rightarrow> bool" where
  "clock_from t [] = True"
| "clock_from t (e # ops) = (t \<le> fst e \<and> clock_from (fst e) ops)"

section \<open>middleware/rateLimiter.ts\<close>

record RateLimitInfo =
  count :: int
  resetTime :: int
  burstCount :: int
  burstResetTime :: int

record RateLimiter =
  clients :: "string \<Rightarrow> RateLimitInfo option"
  maxRequests :: int
  windowMs :: int
  burstCapacity :: int
  burstWindowMs :: int

definition new_RateLimiter :: "int \<Rightarrow> int \<Rightarrow> int \<Rightarrow> int \<Rightarrow> RateLimiter" where
  "new_RateLimiter maxRequests0 windowMs0 burstCapacity0 burstWindowMs0 =
     \<lparr>clients = Map.empty, maxRequests = maxRequests0, windowMs = windowMs0,
      burstCapacity = burstCapacity0, burstWindowMs = burstWindowMs0\<rparr>"

text \<open>\<open>Math.ceil(x / 1000)\<close> for an integer number of milliseconds.\<close>

definition ceil_seconds :: "int \<Rightarrow> int" where
  "ceil_seconds x = - ((- x) div 1000)"

text \<open>What the middleware does with the request: a 429 response (with \<open>retryAfter\<close>,
  \<open>limit\<close> and \<open>resetTime\<close>; \<open>remaining\<close> is always 0), or \<open>next()\<close> with the two
  remaining-quota headers.\<close>

datatype limit_scope = Burst | Window

datatype limiter_response =
    Status429 limit_scope int int int
  | Next int int

definition middleware :: "RateLimiter \<Rightarrow> int \<Rightarrow> string \<Rightarrow> limiter_response \<times> RateLimiter" where
  "middleware rl now clientId =
     (let info0 = (case clients rl clientId of
                     None \<Rightarrow> \<lparr>count = 0, resetTime = now + windowMs rl,
                              burstCount = 0, burstResetTime = now + burstWindowMs rl\<rparr>
                   | Some i \<Rightarrow> i);
          info1 = (if now \<ge> resetTime info0
                   then info0\<lparr>count := 0, resetTime := now + windowMs rl\<rparr> else info0);
          info2 = (if now \<ge> burstResetTime info1
                   then info1\<lparr>burstCount := 0, burstResetTime := now + burstWindowMs rl\<rparr>
                   else info1)
      in if burstCount info2 \<ge> burstCapacity rl then
           (Status429 Burst (ceil_seconds (burstResetTime info2 - now)) (burstCapacity rl)
              (burstResetTime info2),
            rl\<lparr>clients := (clients rl)(clientId \<mapsto> info2)\<rparr>)
         else if count info2 \<ge> maxRequests rl then
           (Status429 Window (ceil_seconds (resetTime info2 - now)) (maxRequests rl)
              (resetTime info2),
            rl\<lparr>clients := (clients rl)(clientId \<mapsto> info2)\<rparr>)
         else
           (let info3 = info2\<lparr>count := count info2 + 1, burstCount := burstCount info2 + 1\<rparr>
            in (Next (maxRequests rl - count info3) (burstCapacity rl - burstCount info3),
                rl\<lparr>clients := (clients rl)(clientId \<mapsto> info3)\<rparr>)))"

definition RateLimiter_cleanupExpired :: "RateLimiter \<Rightarrow> int \<Rightarrow> RateLimiter" where
  "RateLimiter_cleanupExpired rl now =
     rl\<lparr>clients := (\<lambda>clientId.
           case clients rl clientId of
             None \<Rightarrow> None
           | Some info \<Rightarrow>
               if now \<ge> resetTime info \<and> now \<ge> burstResetTime info then None else Some info)\<rparr>"

definition RateLimiter_reset :: "RateLimiter \<Rightarrow> string option \<Rightarrow> RateLimiter" where
  "RateLimiter_reset rl clientId =
     (case clientId of
        None \<Rightarrow> rl\<lparr>clients := Map.empty\<rparr>
      | Some c \<Rightarrow>
          if truthy c then rl\<lparr>clients := (clients rl)(c := None)\<rparr>
          else rl\<lparr>clients := Map.empty\<rparr>)"

datatype limiter_op =
    OpCheck string
  | OpSweep
  | OpReset "string option"

fun limiter_step :: "RateLimiter \<Rightarrow> int \<times> limiter_op \<Rightarrow> RateLimiter" where
  "limiter_step rl (now, OpCheck clientId) = snd (middleware rl now clientId)"
| "limiter_step rl (now, OpSweep) = RateLimiter_cleanupExpired rl now"
| "limiter_step rl (now, OpReset clientId) = RateLimiter_reset rl clientId"

definition limiter_run :: "RateLimiter \<Rightarrow> (int \<times> limiter_op) list \<Rightarrow> RateLimiter" where
  "limiter_run rl ops = foldl limiter_step rl ops"

text \<open>The invariant of one client's record.\<close>

definition within_capacity :: "RateLimiter \<Rightarrow> RateLimitInfo \<Rightarrow> bool" where
  "within_capacity rl info =
     (0 \<le> count info \<and> count info \<le> maxRequests rl \<and>
      0 \<le> burstCount info \<and> burstCount info \<le> burstCapacity rl)"

text \<open>The record of a client as the middleware sees it after creating it on a first request
  and resetting the windows that have elapsed, before the two limits are tested.\<close>

definition refreshed :: "RateLimiter \<Rightarrow> int \<Rightarrow> string \<Rightarrow> RateLimitInfo" where
  "refreshed rl now clientId =
     (let info0 = (case clients rl clientId of
                     None \<Rightarrow> \<lparr>count = 0, resetTime = now + windowMs rl,
                              burstCount = 0, burstResetTime = now + burstWindowMs rl\<rparr>
                   | Some i \<Rightarrow> i);
          info1 = (if now \<ge> resetTime info0
                   then info0\<lparr>count := 0, resetTime := now + windowMs rl\<rparr> else info0)
      in (if now \<ge> burstResetTime info1
          then info1\<lparr>burstCount := 0, burstResetTime := now + burstWindowMs rl\<rparr>
          else info1))"

text \<open>The middleware called \<open>next()\<close>.\<close>

fun allowed :: "limiter_response \<Rightarrow> bool" where
  "allowed (Next a b) = True"
| "allowed (Status429 s r l t) = False"

text \<open>Every client record is within the capacities.\<close>

definition limiter_inv :: "RateLimiter \<Rightarrow> bool" where
  "limiter_inv rl = (\<forall>clientId info. clients rl clientId = Some info \<longrightarrow> within_capacity rl info)"

section \<open>services/DatabaseService.ts\<close>

record User =
  user_id :: int
  user_name :: string
  user_email :: string
  user_createdAt :: "int option"

text \<open>A \<open>QueueJob\<close>. Its \<open>resolve\<close> and \<open>reject\<close> callbacks settle the promise returned by
  \<open>getUserById\<close>; calling them is recorded in the \<open>settled\<close> log of the service state.\<close>

record QueueJob =
  jobId :: string
  userId :: int
  jobTimestamp :: int

datatype Error = Error string

datatype outcome = Resolved User | Rejected Error

text \<open>A number inside a template literal: its decimal digits, most significant first,
  after a minus sign when it is negative.\<close>

definition digit_char :: "nat \<Rightarrow> char" where
  "digit_char d = ''0123456789'' ! d"

fun decimal_digits :: "nat \<Rightarrow> string \<Rightarrow> string" where
  "decimal_digits n acc =
     (if n div 10 = 0 then digit_char (n mod 10) # acc
      else decimal_digits (n div 10) (digit_char (n mod 10) # acc))"

definition number_to_string :: "int \<Rightarrow> string" where
  "number_to_string i =
     (if 0 \<le> i then decimal_digits (nat i) [] else CHR ''-'' # decimal_digits (nat (- i)) [])"

text \<open>
  The state of the service and of the module-level \<open>mockUsers\<close> record. \<open>inFlight\<close> is the
  \<open>processJob\<close> call that is suspended at its 200 ms timer. Two logs observe the run:
  \<open>backendCalls\<close> lists the user ids that \<open>processJob\<close> looked up in \<open>mockUsers\<close>, and
  \<open>settled\<close> lists every call of a job's \<open>resolve\<close> or \<open>reject\<close>, both in order.
\<close>

record DatabaseService =
  processingQueue :: "QueueJob list"
  pendingRequests :: "int \<Rightarrow> QueueJob list option"
  isProcessing :: bool
  nextUserId :: int
  mockUsers :: "int \<Rightarrow> User option"
  inFlight :: "QueueJob option"
  backendCalls :: "int list"
  settled :: "(QueueJob \<times> outcome) list"

definition initialUsers :: "int \<Rightarrow> User option" where
  "initialUsers =
     [1 \<mapsto> \<lparr>user_id = 1, user_name = ''John Doe'', user_email = ''john@example.com'',
              user_createdAt = Some 1672531200000\<rparr>,
      2 \<mapsto> \<lparr>user_id = 2, user_name = ''Jane Smith'', user_email = ''jane@example.com'',
              user_createdAt = Some 1672617600000\<rparr>,
      3 \<mapsto> \<lparr>user_id = 3, user_name = ''Alice Johnson'', user_email = ''alice@example.com'',
              user_createdAt = Some 1672704000000\<rparr>]"

definition new_DatabaseService :: DatabaseService where
  "new_DatabaseService =
     \<lparr>processingQueue = [], pendingRequests = Map.empty, isProcessing = False, nextUserId = 4,
      mockUsers = initialUsers, inFlight = None, backendCalls = [], settled = []\<rparr>"

text \<open>The executor of the promise of \<open>getUserById(userId)\<close>, with the fresh \<open>uuidv4()\<close> and
  the clock reading as parameters.\<close>

definition getUserById :: "DatabaseService \<Rightarrow> string \<Rightarrow> int \<Rightarrow> int \<Rightarrow> DatabaseService" where
  "getUserById db uuid uid now =
     (let job = \<lparr>jobId = uuid, userId = uid, jobTimestamp = now\<rparr> in
      case pendingRequests db uid of
        Some existingJobs \<Rightarrow>
          db\<lparr>pendingRequests := (pendingRequests db)(uid \<mapsto> existingJobs @ [job])\<rparr>
      | None \<Rightarrow>
          db\<lparr>pendingRequests := (pendingRequests db)(uid \<mapsto> [job]),
             processingQueue := processingQueue db @ [job]\<rparr>)"

definition resolveAllPendingRequests :: "DatabaseService \<Rightarrow> int \<Rightarrow> User \<Rightarrow> DatabaseService" where
  "resolveAllPendingRequests db uid user =
     (case pendingRequests db uid of
        None \<Rightarrow> db
      | Some pendingJobs \<Rightarrow>
          db\<lparr>settled := settled db @ map (\<lambda>job. (job, Resolved user)) pendingJobs,
             pendingRequests := (pendingRequests db)(uid := None)\<rparr>)"

definition rejectAllPendingRequests :: "DatabaseService \<Rightarrow> int \<Rightarrow> Error \<Rightarrow> DatabaseService" where
  "rejectAllPendingRequests db uid err =
     (case pendingRequests db uid of
        None \<Rightarrow> db
      | Some pendingJobs \<Rightarrow>
          db\<lparr>settled := settled db @ map (\<lambda>job. (job, Rejected err)) pendingJobs,
             pendingRequests := (pendingRequests db)(uid := None)\<rparr>)"

text \<open>\<open>processJob\<close> after its 200 ms delay: the lookup in \<open>mockUsers\<close>, then resolve or reject
  every pending request of the user id.\<close>

definition processJob :: "DatabaseService \<Rightarrow> QueueJob \<Rightarrow> DatabaseService" where
  "processJob db job =
     (let db1 = db\<lparr>backendCalls := backendCalls db @ [userId job]\<rparr> in
      case mockUsers db1 (userId job) of
        None \<Rightarrow>
          rejectAllPendingRequests db1 (userId job)
            (Error (''User with ID '' @ number_to_string (userId job) @ '' not found''))
      | Some user \<Rightarrow> resolveAllPendingRequests db1 (userId job) user)"

text \<open>The callback of \<open>setInterval\<close> in \<open>processQueue\<close> up to the point where \<open>processJob\<close>
  suspends: the busy flag is set and the head of the queue is shifted out.\<close>

definition processQueue_tick :: "DatabaseService \<Rightarrow> DatabaseService" where
  "processQueue_tick db =
     (if isProcessing db \<or> processingQueue db = [] then db
      else (case processingQueue db of
              [] \<Rightarrow> db\<lparr>isProcessing := False\<rparr>
            | job # rest \<Rightarrow>
                db\<lparr>isProcessing := True, processingQueue := rest, inFlight := Some job\<rparr>))"

text \<open>The 200 ms timer of the suspended \<open>processJob\<close> fires: the job is processed and the
  \<open>finally\<close> block of the interval callback clears the busy flag. With no suspended job there
  is no such timer.\<close>

definition processQueue_resume :: "DatabaseService \<Rightarrow> DatabaseService" where
  "processQueue_resume db =
     (case inFlight db of
        None \<Rightarrow> db
      | Some job \<Rightarrow> (processJob db job)\<lparr>inFlight := None, isProcessing := False\<rparr>)"

text \<open>The 100 ms timer of \<open>createUser\<close> fires.\<close>

definition createUser :: "DatabaseService \<Rightarrow> string \<Rightarrow> string \<Rightarrow> int \<Rightarrow> User \<times> DatabaseService" where
  "createUser db nm em now =
     (let newUser = \<lparr>user_id = nextUserId db, user_name = nm, user_email = em,
                     user_createdAt = Some now\<rparr>
      in (newUser, db\<lparr>nextUserId := nextUserId db + 1,
                       mockUsers := (mockUsers db)(user_id newUser \<mapsto> newUser)\<rparr>))"

definition clearData :: "DatabaseService \<Rightarrow> DatabaseService" where
  "clearData db =
     db\<lparr>mockUsers := (\<lambda>i. if i > 3 then None else mockUsers db i), nextUserId := 4\<rparr>"

datatype db_event =
    GetUserById string int int
  | IntervalTick
  | TimerDone
  | CreateUser string string int
  | ClearData

fun db_step :: "DatabaseService \<Rightarrow> db_event \<Rightarrow> DatabaseService" where
  "db_step db (GetUserById uuid uid now) = getUserById db uuid uid now"
| "db_step db IntervalTick = processQueue_tick db"
| "db_step db TimerDone = processQueue_resume db"
| "db_step db (CreateUser nm em now) = snd (createUser db nm em now)"
| "db_step db ClearData = clearData db"

definition db_run :: "DatabaseService \<Rightarrow> db_event list \<Rightarrow> DatabaseService" where
  "db_run db evs = foldl db_step db evs"

text \<open>The jobs that the \<open>getUserById\<close> calls of an event sequence create for one user id, in
  call order.\<close>

fun callers :: "int \<Rightarrow> db_event list \<Rightarrow> QueueJob list" where
  "callers k [] = []"
| "callers k (GetUserById uuid uid now # evs) =
     (if uid = k then \<lparr>jobId = uuid, userId = uid, jobTimestamp = now\<rparr> # callers k evs
      else callers k evs)"
| "callers k (_ # evs) = callers k evs"

text \<open>No fetch for the user id resolves during the events: its pending group is there after
  every one of them.\<close>

fun pending_throughout :: "DatabaseService \<Rightarrow> int \<Rightarrow> db_event list \<Rightarrow> bool" where
  "pending_throughout db k [] = True"
| "pending_throughout db k (e # evs) =
     (pendingRequests (db_step db e) k \<noteq> None \<and> pending_throughout (db_step db e) k evs)"

text \<open>The user ids of the queued jobs, and of the job in flight.\<close>

definition queued_ids :: "DatabaseService \<Rightarrow> int list" where
  "queued_ids db = map userId (processingQueue db)"

definition inFlight_ids :: "DatabaseService \<Rightarrow> int list" where
  "inFlight_ids db = (case inFlight db of None \<Rightarrow> [] | Some job \<Rightarrow> [userId job])"

text \<open>
  The invariant of the service: the queued jobs have distinct user ids; a user id has a
  pending group exactly when a job for it is queued or in flight, never both; every pending
  group is non-empty and holds jobs of its own user id; the busy flag is set exactly while a
  job is in flight.
\<close>

definition db_inv :: "DatabaseService \<Rightarrow> bool" where
  "db_inv db =
     (distinct (queued_ids db) \<and>
      (\<forall>k. (pendingRequests db k \<noteq> None) =
            (k \<in> set (queued_ids db) \<or> k \<in> set (inFlight_ids db))) \<and>
      (\<forall>k. \<not> (k \<in> set (queued_ids db) \<and> k \<in> set (inFlight_ids db))) \<and>
      (\<forall>k js. pendingRequests db k = Some js \<longrightarrow> js \<noteq> [] \<and> (\<forall>j \<in> set js. userId j = k)) \<and>
      isProcessing db = (inFlight db \<noteq> None))"

text \<open>What \<open>processJob\<close> hands to the waiters of a user id: the user found in \<open>mockUsers\<close>, or
  the not-found error.\<close>

definition fetch_outcome :: "DatabaseService \<Rightarrow> int \<Rightarrow> outcome" where
  "fetch_outcome db k =
     (case mockUsers db k of
        None \<Rightarrow> Rejected (Error (''User with ID '' @ number_to_string k @ '' not found''))
      | Some user \<Rightarrow> Resolved user)"

text \<open>\<open>n\<close> rounds of the worker: an interval tick that starts a job, then its timer.\<close>

fun drain :: "nat \<Rightarrow> db_event list" where
  "drain 0 = []"
| "drain (Suc n) = IntervalTick # TimerDone # drain n"

text \<open>The lookups of \<open>mockUsers\<close> for one user id, and the settled waiters of one user id, in
  the order of the two logs.\<close>

definition calls_for :: "int \<Rightarrow> DatabaseService \<Rightarrow> int list" where
  "calls_for k db = filter (\<lambda>x. x = k) (backendCalls db)"

definition settled_for :: "int \<Rightarrow> DatabaseService \<Rightarrow> (QueueJob \<times> outcome) list" where
  "settled_for k db = filter (\<lambda>w. userId (fst w) = k) (settled db)"

text \<open>The worker running until it is idle: the timer of the job in flight, if there is one,
  then one round for every queued job.\<close>

definition worker_rounds :: "DatabaseService \<Rightarrow> db_event list" where
  "worker_rounds db =
     (case inFlight db of None \<Rightarrow> [] | Some job \<Rightarrow> [TimerDone]) @
     drain (length (processingQueue db))"

text \<open>An event of the worker, as opposed to a call from outside.\<close>

definition worker_event :: "db_event \<Rightarrow> bool" where
  "worker_event e = (e = IntervalTick \<or> e = TimerDone)"

section \<open>routes/users.ts: GET /users/:id over the cache and the service\<close>

record App =
  userCache :: "User LRUCache"
  dbService :: DatabaseService


definition cacheKey :: "int \<Rightarrow> string" where
  "cacheKey uid = ''user:'' @ number_to_string uid"

datatype http_response =
    Status200 User bool
  | Status400
  | Status404 string


text \<open>The handler after its \<open>await\<close>, for a waiter whose promise was settled.\<close>

definition users_get_continue :: "int \<Rightarrow> QueueJob \<times> outcome \<Rightarrow> App \<Rightarrow> App" where
  "users_get_continue now w app =
     (case snd w of
        Resolved user \<Rightarrow>
          app\<lparr>userCache := LRUCache_set (userCache app) now (cacheKey (userId (fst w))) user\<rparr>
      | Rejected err \<Rightarrow> app)"

definition users_get_reply :: "outcome \<Rightarrow> http_response" where
  "users_get_reply out =
     (case out of Resolved user \<Rightarrow> Status200 user False | Rejected (Error msg) \<Rightarrow> Status404 msg)"


definition app_continue :: "int \<Rightarrow> (QueueJob \<times> outcome) list \<Rightarrow> App \<Rightarrow> App" where
  "app_continue now ws app = fold (users_get_continue now) ws app"






section \<open>Facts about the ordered map\<close>

lemma map_of_Map_delete:
  "map_of (Map_delete m k) k' = (if k' = k then None else map_of m k')"
  by (induction m) (auto simp: Map_delete_def)

lemma Map_set_new: "map_of m k = None \<Longrightarrow> Map_set m k v = m @ [(k, v)]"
  by (induction m) (auto split: if_splits)

lemma Map_set_after_delete: "Map_set (Map_delete m k) k v = Map_delete m k @ [(k, v)]"
  by (simp add: Map_set_new map_of_Map_delete)

lemma keys_Map_delete: "map fst (Map_delete m k) = filter (\<lambda>x. x \<noteq> k) (map fst m)"
  by (simp add: Map_delete_def filter_map comp_def)

lemma distinct_Map_delete: "distinct (map fst m) \<Longrightarrow> distinct (map fst (Map_delete m k))"
  by (simp add: keys_Map_delete)

lemma set_Map_delete: "set (Map_delete m k) = {p \<in> set m. fst p \<noteq> k}"
  by (auto simp: Map_delete_def)

lemma map_of_None_keys: "(map_of m k = None) = (k \<notin> set (map fst m))"
  by (simp add: map_of_eq_None_iff)

lemma length_Map_delete_present:
  "distinct (map fst m) \<Longrightarrow> map_of m k \<noteq> None \<Longrightarrow> int (length (Map_delete m k)) = int (length m) - 1"
proof (induction m)
  case Nil
  then show ?case by simp
next
  case (Cons p m)
  show ?case
  proof (cases "fst p = k")
    case True
    with Cons.prems have "k \<notin> set (map fst m)" by auto
    then have "Map_delete m k = m" by (auto simp: Map_delete_def filter_id_conv)
    with True show ?thesis by (simp add: Map_delete_def)
  next
    case False
    with Cons show ?thesis by (auto simp: Map_delete_def)
  qed
qed

lemma Map_delete_absent: "map_of m k = None \<Longrightarrow> Map_delete m k = m"
  by (auto simp: Map_delete_def filter_id_conv map_of_eq_None_iff)

section \<open>The representation invariant of the cache\<close>

lemma cache_inv_new: "cache_inv (new_LRUCache m t)"
  by (simp add: cache_inv_def new_LRUCache_def Map_size_def)

lemma cache_inv_get: "cache_inv c \<Longrightarrow> cache_inv (snd (LRUCache_get c now key))"
  by (auto simp: cache_inv_def LRUCache_get_def Let_def Map_get_def Map_size_def
      Map_set_after_delete distinct_Map_delete keys_Map_delete length_Map_delete_present
      split: option.split)

lemma Map_delete_first:
  "distinct (map fst (p # m)) \<Longrightarrow> Map_delete (p # m) (fst p) = m"
proof -
  assume "distinct (map fst (p # m))"
  then have "map_of m (fst p) = None" by (simp add: map_of_eq_None_iff)
  then have "Map_delete m (fst p) = m" by (rule Map_delete_absent)
  then show ?thesis by (simp add: Map_delete_def)
qed

lemma cache_inv_set: "cache_inv c \<Longrightarrow> cache_inv (LRUCache_set c now key v)"
proof -
  assume inv: "cache_inv c"
  show ?thesis
  proof (cases "Map_has (cache c) key")
    case True
    with inv show ?thesis
      by (simp add: cache_inv_def LRUCache_set_def Map_has_def Map_size_def
          Map_set_after_delete keys_Map_delete length_Map_delete_present)
  next
    case False
    then have absent: "map_of (cache c) key = None" by (simp add: Map_has_def)
    show ?thesis
    proof (cases "cache c")
      case Nil
      with inv False show ?thesis
        by (simp add: cache_inv_def LRUCache_set_def Map_has_def Map_size_def
            Map_first_key_def)
    next
      case (Cons p m)
      with inv have del: "Map_delete (cache c) (fst p) = m"
        using Map_delete_first [of p m] by (simp add: cache_inv_def)
      from absent Cons have k: "key \<noteq> fst p" "map_of m key = None"
        by (auto split: if_splits)
      from inv Cons k del False show ?thesis
        by (simp add: cache_inv_def LRUCache_set_def Map_has_def Map_size_def
            Map_first_key_def Map_set_new map_of_eq_None_iff Let_def)
    qed
  qed
qed

lemma cache_inv_delete: "cache_inv c \<Longrightarrow> cache_inv (snd (LRUCache_delete c key))"
  by (simp add: cache_inv_def LRUCache_delete_def Map_has_def Map_size_def
      distinct_Map_delete length_Map_delete_present)

lemma cache_inv_clear: "cache_inv (LRUCache_clear c)"
  by (simp add: cache_inv_def LRUCache_clear_def Map_size_def)

lemma cache_inv_has: "cache_inv c \<Longrightarrow> cache_inv (snd (LRUCache_has c now key))"
  by (auto simp: cache_inv_def LRUCache_has_def Map_get_def Map_size_def
      distinct_Map_delete length_Map_delete_present split: option.split)

lemma cache_inv_cleanup_delete:
  "cache_inv c \<Longrightarrow> Map_has (cache c) key \<Longrightarrow> cache_inv (cleanup_delete key c)"
  by (simp add: cache_inv_def cleanup_delete_def Map_has_def Map_size_def
      distinct_Map_delete length_Map_delete_present)

lemma fold_cleanup_delete_inv:
  "cache_inv c \<Longrightarrow> distinct ks \<Longrightarrow> set ks \<subseteq> set (map fst (cache c)) \<Longrightarrow>
   cache_inv (fold cleanup_delete ks c)"
proof (induction ks arbitrary: c)
  case Nil
  then show ?case by simp
next
  case (Cons k ks)
  from Cons.prems have has: "Map_has (cache c) k"
    by (auto simp: Map_has_def map_of_eq_None_iff)
  have "set ks \<subseteq> set (map fst (cache (cleanup_delete k c)))"
    using Cons.prems by (auto simp: cleanup_delete_def keys_Map_delete)
  with Cons has show ?case
    by (simp add: cache_inv_cleanup_delete)
qed

lemma cache_inv_cleanupExpired: "cache_inv c \<Longrightarrow> cache_inv (LRUCache_cleanupExpired c now)"
  unfolding LRUCache_cleanupExpired_def Let_def
  by (rule fold_cleanup_delete_inv) (auto simp: cache_inv_def distinct_map_filter)

lemma cache_inv_step: "cache_inv c \<Longrightarrow> cache_inv (cache_step c e)"
  by (cases "(c, e)" rule: cache_step.cases)
     (simp_all add: cache_inv_get cache_inv_set cache_inv_delete cache_inv_clear
        cache_inv_has cache_inv_cleanupExpired)

lemma cache_inv_run: "cache_inv c \<Longrightarrow> cache_inv (cache_run c ops)"
  unfolding cache_run_def by (induction ops arbitrary: c) (simp_all add: cache_inv_step)

section \<open>The request counters\<close>

lemma fold_cleanup_delete_stats:
  "hits (stats (fold cleanup_delete ks c)) = hits (stats c) \<and>
   misses (stats (fold cleanup_delete ks c)) = misses (stats c) \<and>
   totalRequests (stats (fold cleanup_delete ks c)) = totalRequests (stats c)"
  by (induction ks arbitrary: c) (simp_all add: cleanup_delete_def)

lemma same_counters_set: "same_counters (stats c) (stats (LRUCache_set c now key v))"
  by (simp add: same_counters_def LRUCache_set_def Let_def split: option.split)

lemma same_counters_delete: "same_counters (stats c) (stats (snd (LRUCache_delete c key)))"
  by (simp add: same_counters_def LRUCache_delete_def)

lemma same_counters_has: "same_counters (stats c) (stats (snd (LRUCache_has c now key)))"
  by (simp add: same_counters_def LRUCache_has_def split: option.split)

lemma same_counters_cleanupExpired:
  "same_counters (stats c) (stats (LRUCache_cleanupExpired c now))"
  by (simp add: same_counters_def LRUCache_cleanupExpired_def fold_cleanup_delete_stats)

lemma counters_get:
  "totalRequests (stats (snd (LRUCache_get c now key))) = totalRequests (stats c) + 1 \<and>
   hits (stats (snd (LRUCache_get c now key))) =
     hits (stats c) + (if fst (LRUCache_get c now key) = None then 0 else 1) \<and>
   misses (stats (snd (LRUCache_get c now key))) =
     misses (stats c) + (if fst (LRUCache_get c now key) = None then 1 else 0)"
  by (simp add: LRUCache_get_def Let_def split: option.split)

lemma counters_clear:
  "hits (stats (LRUCache_clear c)) = 0 \<and> misses (stats (LRUCache_clear c)) = 0 \<and>
   totalRequests (stats (LRUCache_clear c)) = 0"
  by (simp add: LRUCache_clear_def)

lemma counters_agree_step:
  "counters_agree (stats c) \<Longrightarrow> counters_agree (stats (cache_step c e))"
proof (cases "(c, e)" rule: cache_step.cases)
  case (1 c' now key)
  assume "counters_agree (stats c)"
  with 1 counters_get [of c now key] show ?thesis
    by (simp add: counters_agree_def)
next
  case (2 c' now key v)
  assume "counters_agree (stats c)"
  with 2 same_counters_set [of c now key v] show ?thesis
    by (simp add: counters_agree_def same_counters_def)
next
  case (3 c' now key)
  assume "counters_agree (stats c)"
  with 3 same_counters_delete [of c key] show ?thesis
    by (simp add: counters_agree_def same_counters_def)
next
  case (4 c' now)
  with counters_clear [of c] show ?thesis
    by (simp add: counters_agree_def)
next
  case (5 c' now key)
  assume "counters_agree (stats c)"
  with 5 same_counters_has [of c now key] show ?thesis
    by (simp add: counters_agree_def same_counters_def)
next
  case (6 c' now)
  assume "counters_agree (stats c)"
  with 6 same_counters_cleanupExpired [of c now] show ?thesis
    by (simp add: counters_agree_def same_counters_def)
qed

lemma counters_agree_run:
  "counters_agree (stats c) \<Longrightarrow> counters_agree (stats (cache_run c ops))"
  unfolding cache_run_def by (induction ops arbitrary: c) (simp_all add: counters_agree_step)

text \<open>
  C10. After every sequence of cache operations from a new cache, \<open>hits + misses\<close> equals
  \<open>totalRequests\<close>. \<open>get\<close> adds one to \<open>totalRequests\<close> and one to exactly one of \<open>hits\<close>
  and \<open>misses\<close>; \<open>set\<close>, \<open>delete\<close>, \<open>has\<close> and \<open>cleanupExpired\<close> leave the three counters
  alone; \<open>clear\<close> sets all three to zero.
\<close>

theorem C10_hits_misses_total:
  "counters_agree (getStats (cache_run (new_LRUCache m t) ops)) \<and>
   totalRequests (stats (snd (LRUCache_get c now key))) = totalRequests (stats c) + 1 \<and>
   hits (stats (snd (LRUCache_get c now key))) + misses (stats (snd (LRUCache_get c now key)))
     = hits (stats c) + misses (stats c) + 1 \<and>
   hits (stats (snd (LRUCache_get c now key))) \<in> {hits (stats c), hits (stats c) + 1} \<and>
   same_counters (stats c) (stats (LRUCache_set c now key v)) \<and>
   same_counters (stats c) (stats (snd (LRUCache_delete c key))) \<and>
   same_counters (stats c) (stats (snd (LRUCache_has c now key))) \<and>
   same_counters (stats c) (stats (LRUCache_cleanupExpired c now)) \<and>
   hits (stats (LRUCache_clear c)) = 0 \<and> misses (stats (LRUCache_clear c)) = 0 \<and>
   totalRequests (stats (LRUCache_clear c)) = 0"
proof -
  have "counters_agree (stats (new_LRUCache m t :: 'a LRUCache))"
    by (simp add: counters_agree_def new_LRUCache_def)
  then have "counters_agree (getStats (cache_run (new_LRUCache m t :: 'a LRUCache) ops))"
    unfolding getStats_def by (rule counters_agree_run)
  moreover note counters_get [of c now key] counters_clear [of c]
    same_counters_set [of c now key v] same_counters_delete [of c key]
    same_counters_has [of c now key] same_counters_cleanupExpired [of c now]
  ultimately show ?thesis by simp
qed

section \<open>Expiry\<close>

lemma get_present:
  "Map_get (cache c) key = Some entry \<Longrightarrow>
   fst (LRUCache_get c t key) = (if t - timestamp entry > ttl c then None else Some (entryValue entry))"
  by (simp add: LRUCache_get_def Let_def expired_def)

lemma map_of_Map_set:
  "map_of (Map_set m k v) k' = (if k' = k then Some v else map_of m k')"
  by (induction m) auto

lemma set_stores:
  "Map_get (cache (LRUCache_set c T key v)) key =
     Some \<lparr>entryValue = v, timestamp = T, accessCount = 1, lastAccessed = T\<rparr>"
  by (simp add: LRUCache_set_def Let_def Map_get_def map_of_Map_set split: option.split)

lemma ttl_get [simp]: "ttl (snd (LRUCache_get c now key)) = ttl c"
  by (simp add: LRUCache_get_def Let_def split: option.split)

lemma ttl_set [simp]: "ttl (LRUCache_set c now key v) = ttl c"
  by (simp add: LRUCache_set_def Let_def split: option.split)

lemma ttl_delete [simp]: "ttl (snd (LRUCache_delete c key)) = ttl c"
  by (simp add: LRUCache_delete_def)

lemma ttl_clear [simp]: "ttl (LRUCache_clear c) = ttl c"
  by (simp add: LRUCache_clear_def)

lemma ttl_has [simp]: "ttl (snd (LRUCache_has c now key)) = ttl c"
  by (simp add: LRUCache_has_def split: option.split)

lemma ttl_fold_cleanup [simp]: "ttl (fold cleanup_delete ks c) = ttl c"
  by (induction ks arbitrary: c) (simp_all add: cleanup_delete_def)

lemma ttl_cleanupExpired [simp]: "ttl (LRUCache_cleanupExpired c now) = ttl c"
  by (simp add: LRUCache_cleanupExpired_def)

lemma ttl_step [simp]: "ttl (cache_step c e) = ttl c"
  by (cases "(c, e)" rule: cache_step.cases) simp_all

lemma ttl_run [simp]: "ttl (cache_run c ops) = ttl c"
  unfolding cache_run_def by (induction ops arbitrary: c) simp_all

lemma map_of_fold_cleanup:
  "map_of (cache (fold cleanup_delete ks c)) key =
     (if key \<in> set ks then None else map_of (cache c) key)"
  by (induction ks arbitrary: c) (auto simp: cleanup_delete_def map_of_Map_delete)

lemma absent_step:
  "Map_get (cache c) key = None \<Longrightarrow> \<not> overwrites key e \<Longrightarrow>
   Map_get (cache (cache_step c e)) key = None"
  by (cases "(c, e)" rule: cache_step.cases)
     (auto simp: Map_get_def LRUCache_get_def LRUCache_set_def LRUCache_delete_def
        LRUCache_clear_def LRUCache_has_def LRUCache_cleanupExpired_def Let_def
        map_of_Map_set map_of_Map_delete map_of_fold_cleanup
        split: option.split)

lemma holds_step:
  "holds c key v T \<Longrightarrow> \<not> overwrites key e \<Longrightarrow> holds (cache_step c e) key v T"
  by (cases "(c, e)" rule: cache_step.cases)
     (auto simp: holds_def Map_get_def LRUCache_get_def LRUCache_set_def LRUCache_delete_def
        LRUCache_clear_def LRUCache_has_def LRUCache_cleanupExpired_def Let_def
        map_of_Map_set map_of_Map_delete map_of_fold_cleanup
        split: option.split option.split_asm)

lemma holds_run:
  "holds c key v T \<Longrightarrow> \<not> list_ex (overwrites key) ops \<Longrightarrow> holds (cache_run c ops) key v T"
  unfolding cache_run_def
  by (induction ops arbitrary: c) (simp_all add: holds_step)

text \<open>
  C3, as the code has it. An entry set at time \<open>T\<close> that has not been overwritten and is
  still in the map is a miss for a \<open>get\<close> at any time \<open>t > T + ttl\<close> and a hit, returning the
  stored value, at any time \<open>t \<le> T + ttl\<close>: at \<open>t = T + ttl\<close> itself the entry is still served.
\<close>

theorem C3_expiry_boundary:
  assumes "\<not> list_ex (overwrites key) ops"
    and "Map_has (cache (cache_run (LRUCache_set c T key v) ops)) key"
  shows "fst (LRUCache_get (cache_run (LRUCache_set c T key v) ops) t key) =
           (if t > T + ttl c then None else Some v)"
proof -
  let ?c = "cache_run (LRUCache_set c T key v) ops"
  have "holds (LRUCache_set c T key v) key v T"
    by (simp add: holds_def set_stores)
  then have h: "holds ?c key v T" using assms(1) by (rule holds_run)
  from assms(2) obtain entry where e: "Map_get (cache ?c) key = Some entry"
    by (auto simp: Map_has_def Map_get_def)
  with h have "entryValue entry = v" "timestamp entry = T" by (simp_all add: holds_def)
  with get_present [OF e, of t] show ?thesis by (simp add: algebra_simps)
qed

theorem C3_expiry_boundary_witness:
  "\<not> list_ex (overwrites ''a'') [(10, OpGet ''a''), (20, OpSet ''b'' (2::int))] \<and>
   Map_has (cache (cache_run (LRUCache_set (new_LRUCache 2 100) 0 ''a'' (1::int))
      [(10, OpGet ''a''), (20, OpSet ''b'' 2)])) ''a'' \<and>
   fst (LRUCache_get (cache_run (LRUCache_set (new_LRUCache 2 100) 0 ''a'' (1::int))
      [(10, OpGet ''a''), (20, OpSet ''b'' 2)]) 100 ''a'') = Some 1 \<and>
   fst (LRUCache_get (cache_run (LRUCache_set (new_LRUCache 2 100) 0 ''a'' (1::int))
      [(10, OpGet ''a''), (20, OpSet ''b'' 2)]) 101 ''a'') = None"
proof -
  let ?ops = "[(10, OpGet ''a''), (20, OpSet ''b'' (2::int))]"
  let ?c = "LRUCache_set (new_LRUCache 2 100) 0 ''a'' (1::int)"
  have a: "\<not> list_ex (overwrites ''a'') ?ops" by simp
  have b: "Map_has (cache (cache_run ?c ?ops)) ''a''"
    by (simp add: cache_run_def LRUCache_set_def LRUCache_get_def new_LRUCache_def Map_has_def
        Map_get_def Map_delete_def Map_size_def Map_first_key_def expired_def Let_def)
  have t: "ttl (new_LRUCache 2 100 :: int LRUCache) = 100" by (simp add: new_LRUCache_def)
  from a b t C3_expiry_boundary [OF a b, of 100] C3_expiry_boundary [OF a b, of 101]
  show ?thesis by simp
qed

text \<open>With a ttl of 60000 an entry set at time 0 is still a hit at time 60000.\<close>

theorem C3_counterexample:
  "fst (LRUCache_get (LRUCache_set (new_LRUCache 1000 60000) 0 ''u:1'' (7::int)) 60000 ''u:1'')
     = Some 7"
  by (simp add: LRUCache_set_def LRUCache_get_def new_LRUCache_def Map_has_def
      Map_get_def Map_delete_def Map_size_def Map_first_key_def expired_def Let_def)

section \<open>The frame of \<open>has\<close>\<close>

lemma has_iff_get_hits: "fst (LRUCache_has c now key) = (fst (LRUCache_get c now key) \<noteq> None)"
  by (simp add: LRUCache_has_def LRUCache_get_def Let_def split: option.split)

lemma has_state:
  "snd (LRUCache_has c now key) =
     (if fst (LRUCache_has c now key) then c
      else if Map_has (cache c) key then cleanup_delete key c else c)"
  by (simp add: LRUCache_has_def Map_has_def Map_get_def cleanup_delete_def split: option.split)

text \<open>
  C9, as the code has it. \<open>has(key)\<close> returns true exactly when \<open>get(key)\<close> at the same clock
  reading would be a hit, and it never changes \<open>hits\<close>, \<open>misses\<close> or \<open>totalRequests\<close>. When it
  returns true the whole cache (entries, their order, \<open>lastAccessed\<close>, \<open>accessCount\<close>, every
  statistic) is unchanged. When it finds an expired entry it deletes that entry and
  decrements \<open>stats.currentSize\<close>; the other entries keep their order and fields.
\<close>

theorem C9_has_frame:
  "fst (LRUCache_has c now key) = (fst (LRUCache_get c now key) \<noteq> None) \<and>
   same_counters (getStats c) (getStats (snd (LRUCache_has c now key))) \<and>
   snd (LRUCache_has c now key) =
     (if fst (LRUCache_has c now key) then c
      else if Map_has (cache c) key then cleanup_delete key c else c)"
  using has_iff_get_hits [of c now key] same_counters_has [of c now key] has_state [of c now key]
  by (simp add: getStats_def)

text \<open>\<open>has\<close> on an expired key changes the statistics: \<open>currentSize\<close> drops from 1 to 0.\<close>

theorem C9_counterexample:
  "fst (LRUCache_has (LRUCache_set (new_LRUCache 10 100) 0 ''a'' (1::int)) 200 ''a'') = False \<and>
   currentSize (getStats (LRUCache_set (new_LRUCache 10 100) 0 ''a'' (1::int))) = 1 \<and>
   currentSize (getStats (snd (LRUCache_has (LRUCache_set (new_LRUCache 10 100) 0 ''a'' (1::int))
      200 ''a''))) = 0"
  by (simp add: LRUCache_set_def LRUCache_has_def new_LRUCache_def getStats_def Map_has_def
      Map_get_def Map_delete_def Map_size_def Map_first_key_def expired_def Let_def)

section \<open>The size of the cache\<close>

lemma cache_fold_cleanup:
  "cache (fold cleanup_delete ks c) = filter (\<lambda>p. fst p \<notin> set ks) (cache c)"
  by (induction ks arbitrary: c) (auto simp: cleanup_delete_def Map_delete_def intro: filter_cong)

lemma cache_cleanupExpired:
  assumes "distinct (map fst (cache c))"
  shows "cache (LRUCache_cleanupExpired c now) = live_entries c now"
proof -
  have "(fst p \<notin> fst ` {q \<in> set (cache c). expired c now (snd q)}) = (\<not> expired c now (snd p))"
    if "p \<in> set (cache c)" for p
  proof -
    have "q = p" if "q \<in> set (cache c)" "fst q = fst p" for q
      using that \<open>p \<in> set (cache c)\<close> assms
      by (metis eq_key_imp_eq_value prod.collapse)
    then show ?thesis using that by auto
  qed
  then show ?thesis
    by (simp add: LRUCache_cleanupExpired_def cache_fold_cleanup live_entries_def cong: filter_cong)
qed

lemma currentSize_cleanupExpired:
  assumes "cache_inv c"
  shows "currentSize (stats (LRUCache_cleanupExpired c now)) = int (length (live_entries c now))"
proof -
  from assms have "cache_inv (LRUCache_cleanupExpired c now)" by (rule cache_inv_cleanupExpired)
  moreover from assms have "cache (LRUCache_cleanupExpired c now) = live_entries c now"
    by (simp add: cache_cleanupExpired cache_inv_def)
  ultimately show ?thesis by (simp add: cache_inv_def Map_size_def)
qed


lemma maxSize_get [simp]: "maxSize (snd (LRUCache_get c now key)) = maxSize c"
  by (simp add: LRUCache_get_def Let_def split: option.split)

lemma maxSize_set [simp]: "maxSize (LRUCache_set c now key v) = maxSize c"
  by (simp add: LRUCache_set_def Let_def split: option.split)

lemma maxSize_delete [simp]: "maxSize (snd (LRUCache_delete c key)) = maxSize c"
  by (simp add: LRUCache_delete_def)

lemma maxSize_clear [simp]: "maxSize (LRUCache_clear c) = maxSize c"
  by (simp add: LRUCache_clear_def)

lemma maxSize_has [simp]: "maxSize (snd (LRUCache_has c now key)) = maxSize c"
  by (simp add: LRUCache_has_def split: option.split)

lemma maxSize_fold_cleanup [simp]: "maxSize (fold cleanup_delete ks c) = maxSize c"
  by (induction ks arbitrary: c) (simp_all add: cleanup_delete_def)

lemma maxSize_cleanupExpired [simp]: "maxSize (LRUCache_cleanupExpired c now) = maxSize c"
  by (simp add: LRUCache_cleanupExpired_def)

lemma size_inv_filter:
  assumes "size_inv c" "cache c' = filter P (cache c)" "maxSize c' = maxSize c"
  shows "size_inv c'"
proof -
  from assms(1) have "int (length (cache c)) \<le> maxSize c"
    by (simp add: size_inv_def Map_size_def)
  moreover have "length (filter P (cache c)) \<le> length (cache c)" by simp
  ultimately have "int (length (filter P (cache c))) \<le> maxSize c" by linarith
  with assms show ?thesis
    by (auto simp: size_inv_def Map_size_def list_all_iff)
qed

lemma size_inv_get:
  assumes "cache_inv c" "size_inv c"
  shows "size_inv (snd (LRUCache_get c now key))"
proof (cases "Map_get (cache c) key")
  case None
  with assms show ?thesis by (simp add: LRUCache_get_def size_inv_def)
next
  case (Some entry)
  show ?thesis
  proof (cases "expired c now entry")
    case True
    with Some have "cache (snd (LRUCache_get c now key)) = filter (\<lambda>p. fst p \<noteq> key) (cache c)"
      by (simp add: LRUCache_get_def Map_delete_def)
    with assms(2) show ?thesis by (rule size_inv_filter) simp
  next
    case False
    from Some have present: "map_of (cache c) key \<noteq> None" by (simp add: Map_get_def)
    then have "key \<in> fst ` set (cache c)" by (simp add: map_of_eq_None_iff)
    with assms(2) have "truthy key" by (auto simp: size_inv_def list_all_iff)
    moreover from assms(1) present
    have "int (length (Map_delete (cache c) key)) = int (length (cache c)) - 1"
      by (simp add: length_Map_delete_present cache_inv_def)
    ultimately show ?thesis using Some False assms(2)
      by (auto simp: LRUCache_get_def Let_def size_inv_def Map_size_def Map_set_after_delete
          list_all_iff set_Map_delete)
  qed
qed

lemma size_inv_set:
  assumes "cache_inv c" "size_inv c" "truthy key"
  shows "size_inv (LRUCache_set c now key v)"
proof (cases "Map_has (cache c) key")
  case True
  then have present: "map_of (cache c) key \<noteq> None" by (simp add: Map_has_def)
  with assms(1)
  have "int (length (Map_delete (cache c) key)) = int (length (cache c)) - 1"
    by (simp add: length_Map_delete_present cache_inv_def)
  with True assms show ?thesis
    by (auto simp: LRUCache_set_def size_inv_def Map_size_def Map_set_after_delete
        list_all_iff set_Map_delete)
next
  case False
  then have absent: "map_of (cache c) key = None" by (simp add: Map_has_def)
  show ?thesis
  proof (cases "cache c")
    case Nil
    with False assms show ?thesis
      by (simp add: LRUCache_set_def size_inv_def Map_size_def Map_first_key_def Let_def)
  next
    case (Cons p m)
    with assms(1) have del: "Map_delete (cache c) (fst p) = m"
      using Map_delete_first [of p m] by (simp add: cache_inv_def)
    from absent Cons have k: "key \<noteq> fst p" "map_of m key = None"
      by (auto split: if_splits)
    from assms(2) Cons have tp: "truthy (fst p)" by (simp add: size_inv_def)
    from assms Cons k del False tp show ?thesis
      by (auto simp: LRUCache_set_def size_inv_def Map_has_def Map_size_def
          Map_first_key_def Map_set_new Let_def)
  qed
qed

lemma size_inv_delete: "size_inv c \<Longrightarrow> size_inv (snd (LRUCache_delete c key))"
proof -
  assume a: "size_inv c"
  have "cache (snd (LRUCache_delete c key)) = filter (\<lambda>p. fst p \<noteq> key) (cache c)"
    by (simp add: LRUCache_delete_def Map_delete_def Map_has_def Map_delete_absent [unfolded Map_delete_def])
  with a show ?thesis by (rule size_inv_filter) simp
qed

lemma size_inv_clear: "size_inv c \<Longrightarrow> size_inv (LRUCache_clear c)"
  by (simp add: size_inv_def LRUCache_clear_def Map_size_def)

lemma size_inv_has: "size_inv c \<Longrightarrow> size_inv (snd (LRUCache_has c now key))"
proof -
  assume a: "size_inv c"
  have "cache (snd (LRUCache_has c now key)) = filter (\<lambda>p. fst p \<noteq> key) (cache c) \<or>
        cache (snd (LRUCache_has c now key)) = filter (\<lambda>p. True) (cache c)"
    by (simp add: LRUCache_has_def Map_delete_def split: option.split)
  then show ?thesis
  proof
    assume "cache (snd (LRUCache_has c now key)) = filter (\<lambda>p. fst p \<noteq> key) (cache c)"
    with a show ?thesis by (rule size_inv_filter) simp
  next
    assume "cache (snd (LRUCache_has c now key)) = filter (\<lambda>p. True) (cache c)"
    with a show ?thesis by (rule size_inv_filter) simp
  qed
qed

lemma size_inv_cleanupExpired: "size_inv c \<Longrightarrow> size_inv (LRUCache_cleanupExpired c now)"
proof -
  assume a: "size_inv c"
  have "cache (LRUCache_cleanupExpired c now) =
      filter (\<lambda>p. fst p \<notin> set (map fst (filter (\<lambda>p. expired c now (snd p)) (cache c)))) (cache c)"
    by (simp add: LRUCache_cleanupExpired_def cache_fold_cleanup)
  with a show ?thesis by (rule size_inv_filter) simp
qed

lemma size_inv_step:
  "cache_inv c \<Longrightarrow> size_inv c \<Longrightarrow> sets_truthy_key e \<Longrightarrow> size_inv (cache_step c e)"
  by (cases "(c, e)" rule: cache_step.cases)
     (simp_all add: size_inv_get size_inv_set size_inv_delete size_inv_clear size_inv_has
        size_inv_cleanupExpired)

lemma size_inv_run:
  "cache_inv c \<Longrightarrow> size_inv c \<Longrightarrow> list_all sets_truthy_key ops \<Longrightarrow> size_inv (cache_run c ops)"
  unfolding cache_run_def
  by (induction ops arbitrary: c) (simp_all add: size_inv_step cache_inv_step)

lemma maxSize_run [simp]: "maxSize (cache_run c ops) = maxSize c"
  unfolding cache_run_def
proof (induction ops arbitrary: c)
  case Nil
  show ?case by simp
next
  case (Cons e ops)
  have "maxSize (cache_step c e) = maxSize c"
    by (cases "(c, e)" rule: cache_step.cases) simp_all
  with Cons show ?case by simp
qed

text \<open>
  C6, as the code has it. After every sequence of cache operations from a new cache,
  \<open>stats.currentSize\<close> is the number of entries held in the map, expired entries that no
  access or sweep has removed yet included; right after a sweep (\<open>cleanupExpired\<close>) it is the
  number of entries that are not expired. When \<open>maxSize\<close> is at least 1 and \<open>set\<close> is never
  called with the empty key, \<open>currentSize\<close> is at most \<open>maxSize\<close>.
\<close>

theorem C6_currentSize:
  "currentSize (getStats (cache_run (new_LRUCache m t) ops)) =
     LRUCache_size (cache_run (new_LRUCache m t) ops) \<and>
   currentSize (getStats (LRUCache_cleanupExpired (cache_run (new_LRUCache m t) ops) now)) =
     int (length (live_entries (cache_run (new_LRUCache m t) ops) now)) \<and>
   (1 \<le> m \<and> list_all sets_truthy_key ops \<longrightarrow>
      currentSize (getStats (cache_run (new_LRUCache m t) ops)) \<le> m)"
proof -
  let ?c = "cache_run (new_LRUCache m t :: 'a LRUCache) ops"
  have inv: "cache_inv ?c" by (simp add: cache_inv_run cache_inv_new)
  then have a: "currentSize (getStats ?c) = LRUCache_size ?c"
    by (simp add: cache_inv_def getStats_def LRUCache_size_def)
  from inv have b: "currentSize (getStats (LRUCache_cleanupExpired ?c now)) =
      int (length (live_entries ?c now))"
    by (simp add: getStats_def currentSize_cleanupExpired)
  have c: "currentSize (getStats ?c) \<le> m" if "1 \<le> m" "list_all sets_truthy_key ops"
  proof -
    from that(1) have "size_inv (new_LRUCache m t :: 'a LRUCache)"
      by (simp add: size_inv_def new_LRUCache_def Map_size_def)
    with that(2) have "size_inv ?c" by (simp add: size_inv_run cache_inv_new)
    with inv show ?thesis
      by (simp add: size_inv_def cache_inv_def getStats_def new_LRUCache_def)
  qed
  from a b c show ?thesis by blast
qed

theorem C6_currentSize_witness:
  "1 \<le> (1::int) \<and>
   list_all sets_truthy_key [(0, OpSet ''a'' (1::int)), (200, OpSet ''b'' 2)] \<and>
   currentSize (getStats (cache_run (new_LRUCache 1 100)
     [(0, OpSet ''a'' (1::int)), (200, OpSet ''b'' 2)])) \<le> 1"
proof -
  have "list_all sets_truthy_key [(0, OpSet ''a'' (1::int)), (200, OpSet ''b'' 2)]"
    by (simp add: truthy_def)
  with C6_currentSize [of 1 100 "[(0, OpSet ''a'' (1::int)), (200, OpSet ''b'' 2)]" 0]
  show ?thesis by simp
qed

text \<open>With a ttl of 100, after \<open>set a\<close> at time 0 and \<open>set b\<close> at time 200 the statistics
  report two entries while only one entry is live. With a \<open>maxSize\<close> of 0 the first \<open>set\<close> finds
  nothing to evict and the cache holds one entry.\<close>

theorem C6_counterexample:
  "currentSize (getStats (cache_run (new_LRUCache 10 100)
     [(0, OpSet ''a'' (1::int)), (200, OpSet ''b'' 2)])) = 2 \<and>
   length (live_entries (cache_run (new_LRUCache 10 100)
     [(0, OpSet ''a'' (1::int)), (200, OpSet ''b'' 2)]) 200) = 1 \<and>
   currentSize (getStats (cache_run (new_LRUCache 0 100) [(0, OpSet ''a'' (1::int))])) = 1"
  by (simp add: cache_run_def LRUCache_set_def new_LRUCache_def getStats_def Map_has_def
      Map_get_def Map_delete_def Map_size_def Map_first_key_def expired_def Let_def
      live_entries_def)

section \<open>Eviction\<close>

lemma recency_filter:
  assumes "recency_ordered c t" "cache c' = filter P (cache c)" "t \<le> now"
  shows "recency_ordered c' now"
  using assms
  by (auto simp: recency_ordered_def list_all_iff sorted_filter)

lemma recency_touch:
  assumes "recency_ordered c t" "cache c' = filter P (cache c) @ [(key, e)]"
    "lastAccessed e = now" "t \<le> now"
  shows "recency_ordered c' now"
  using assms
  by (auto simp: recency_ordered_def list_all_iff sorted_filter sorted_append)

lemma recency_get:
  assumes "recency_ordered c t" "t \<le> now"
  shows "recency_ordered (snd (LRUCache_get c now key)) now"
proof (cases "Map_get (cache c) key")
  case None
  then have "cache (snd (LRUCache_get c now key)) = filter (\<lambda>p. True) (cache c)"
    by (simp add: LRUCache_get_def)
  with assms(1) show ?thesis using assms(2) by (rule recency_filter)
next
  case (Some entry)
  show ?thesis
  proof (cases "expired c now entry")
    case True
    with Some have "cache (snd (LRUCache_get c now key)) = filter (\<lambda>p. fst p \<noteq> key) (cache c)"
      by (simp add: LRUCache_get_def Map_delete_def)
    with assms(1) show ?thesis using assms(2) by (rule recency_filter)
  next
    case False
    with Some have "cache (snd (LRUCache_get c now key)) =
        filter (\<lambda>p. fst p \<noteq> key) (cache c) @
        [(key, entry\<lparr>lastAccessed := now, accessCount := accessCount entry + 1\<rparr>)]"
      by (simp add: LRUCache_get_def Let_def Map_set_after_delete, simp add: Map_delete_def)
    with assms(1) show ?thesis by (rule recency_touch) (simp_all add: assms(2))
  qed
qed

lemma set_cache_shape:
  "\<exists>P. cache (LRUCache_set c now key v) = filter P (cache c) @
     [(key, \<lparr>entryValue = v, timestamp = now, accessCount = 1, lastAccessed = now\<rparr>)]"
proof (cases "Map_has (cache c) key")
  case True
  then have "cache (LRUCache_set c now key v) = filter (\<lambda>p. fst p \<noteq> key) (cache c) @
      [(key, \<lparr>entryValue = v, timestamp = now, accessCount = 1, lastAccessed = now\<rparr>)]"
    by (simp add: LRUCache_set_def Map_set_after_delete, simp add: Map_delete_def)
  then show ?thesis by blast
next
  case False
  define c1 where "c1 =
     (if Map_size (cache c) \<ge> maxSize c then
        (case Map_first_key (cache c) of
           None \<Rightarrow> c
         | Some firstKey \<Rightarrow>
             if truthy firstKey then
               c\<lparr>cache := Map_delete (cache c) firstKey,
                 stats := (stats c)\<lparr>currentSize := currentSize (stats c) - 1\<rparr>\<rparr>
             else c)
      else c)"
  have "cache c1 = filter (\<lambda>p. True) (cache c) \<or>
        (\<exists>k. cache c1 = filter (\<lambda>p. fst p \<noteq> k) (cache c))"
    by (auto simp: c1_def Map_delete_def split: option.split)
  then obtain Q where Q: "cache c1 = filter Q (cache c)" by blast
  from False have "map_of (cache c) key = None" by (simp add: Map_has_def)
  with Q have "map_of (cache c1) key = None" by (auto simp: map_of_eq_None_iff)
  then have "Map_set (cache c1) key e = cache c1 @ [(key, e)]" for e
    by (rule Map_set_new)
  moreover have "cache (LRUCache_set c now key v) = Map_set (cache c1) key
      \<lparr>entryValue = v, timestamp = now, accessCount = 1, lastAccessed = now\<rparr>"
    using False by (simp add: LRUCache_set_def Let_def c1_def)
  ultimately show ?thesis using Q by auto
qed

lemma recency_set:
  assumes "recency_ordered c t" "t \<le> now"
  shows "recency_ordered (LRUCache_set c now key v) now"
proof -
  obtain P where "cache (LRUCache_set c now key v) = filter P (cache c) @
      [(key, \<lparr>entryValue = v, timestamp = now, accessCount = 1, lastAccessed = now\<rparr>)]"
    using set_cache_shape [of c now key v] by auto
  with assms(1) show ?thesis by (rule recency_touch) (simp_all add: assms(2))
qed

lemma recency_step:
  assumes "recency_ordered c t" "t \<le> fst e"
  shows "recency_ordered (cache_step c e) (fst e)"
proof (cases "(c, e)" rule: cache_step.cases)
  case (1 c' now key)
  with assms show ?thesis by (simp add: recency_get)
next
  case (2 c' now key v)
  with assms show ?thesis by (simp add: recency_set)
next
  case (3 c' now key)
  have "cache (snd (LRUCache_delete c key)) = filter (\<lambda>p. fst p \<noteq> key) (cache c)"
    by (simp add: LRUCache_delete_def Map_delete_def Map_has_def
        Map_delete_absent [unfolded Map_delete_def])
  with assms(1) have "recency_ordered (snd (LRUCache_delete c key)) (fst e)"
    using assms(2) by (rule recency_filter)
  with 3 show ?thesis by simp
next
  case (4 c' now)
  then show ?thesis by (simp add: recency_ordered_def LRUCache_clear_def)
next
  case (5 c' now key)
  have "cache (snd (LRUCache_has c now key)) = filter (\<lambda>p. fst p \<noteq> key) (cache c) \<or>
        cache (snd (LRUCache_has c now key)) = filter (\<lambda>p. True) (cache c)"
    by (simp add: LRUCache_has_def Map_delete_def split: option.split)
  then have "recency_ordered (snd (LRUCache_has c now key)) (fst e)"
    using assms recency_filter by blast
  with 5 show ?thesis by simp
next
  case (6 c' now)
  have "cache (LRUCache_cleanupExpired c now) =
      filter (\<lambda>p. fst p \<notin> set (map fst (filter (\<lambda>p. expired c now (snd p)) (cache c)))) (cache c)"
    by (simp add: LRUCache_cleanupExpired_def cache_fold_cleanup)
  with assms(1) have "recency_ordered (LRUCache_cleanupExpired c now) (fst e)"
    using assms(2) by (rule recency_filter)
  with 6 show ?thesis by simp
qed

lemma recency_run:
  "recency_ordered c t \<Longrightarrow> clock_from t ops \<Longrightarrow> \<exists>t'. recency_ordered (cache_run c ops) t'"
  unfolding cache_run_def
proof (induction ops arbitrary: c t)
  case Nil
  then show ?case by auto
next
  case (Cons e ops)
  from Cons.prems have "recency_ordered (cache_step c e) (fst e)" "clock_from (fst e) ops"
    by (simp_all add: recency_step)
  from Cons.IH [OF this] show ?case by simp
qed

text \<open>Under a clock that never goes back, a \<open>set\<close> of a new key into a full cache whose first
  key is truthy removes exactly the first entry of the map, and no entry of the map was
  accessed earlier than that one.\<close>

lemma set_evicts_least_recent:
  assumes "clock_from t ops"
    and "c = cache_run (new_LRUCache m ttl0) ops"
    and "\<not> Map_has (cache c) key"
    and "Map_size (cache c) \<ge> maxSize c"
    and "cache c = p # rest"
    and "truthy (fst p)"
  shows "cache (LRUCache_set c now key v) =
           rest @ [(key, \<lparr>entryValue = v, timestamp = now, accessCount = 1, lastAccessed = now\<rparr>)] \<and>
         (\<forall>q \<in> set (cache c). lastAccessed (snd p) \<le> lastAccessed (snd q))"
proof -
  have "recency_ordered (new_LRUCache m ttl0 :: 'a LRUCache) t"
    by (simp add: recency_ordered_def new_LRUCache_def)
  with assms(1,2) obtain t' where "recency_ordered c t'"
    using recency_run by blast
  with assms(5) have least: "\<forall>q \<in> set (cache c). lastAccessed (snd p) \<le> lastAccessed (snd q)"
    by (auto simp: recency_ordered_def)
  from assms(2) have "cache_inv c" by (simp add: cache_inv_run cache_inv_new)
  with assms(5) have del: "Map_delete (cache c) (fst p) = rest"
    using Map_delete_first [of p rest] by (simp add: cache_inv_def)
  from assms(3) have "map_of (cache c) key = None" by (simp add: Map_has_def)
  with assms(5) have "map_of rest key = None" by (auto split: if_splits)
  with assms(3,4,5,6) del have "cache (LRUCache_set c now key v) =
      rest @ [(key, \<lparr>entryValue = v, timestamp = now, accessCount = 1, lastAccessed = now\<rparr>)]"
    by (simp add: LRUCache_set_def Let_def Map_first_key_def Map_set_new)
  with least show ?thesis by simp
qed

text \<open>
  C2 at a failing input. In a cache of \<open>maxSize\<close> 1 that holds the empty key, \<open>set\<close> of a new
  key finds the map full, reads \<open>firstKey = ""\<close>, and skips the eviction because the empty
  string is falsy in \<open>if (firstKey)\<close>: the map then holds two entries and \<open>currentSize\<close> is 2.
\<close>

theorem C2_falsy_key_is_not_evicted:
  "maxSize (cache_run (new_LRUCache 1 60000) [(0, OpSet [] (1::int)), (1, OpSet ''a'' 2)]) = 1 \<and>
   currentSize (getStats (cache_run (new_LRUCache 1 60000)
     [(0, OpSet [] (1::int)), (1, OpSet ''a'' 2)])) = 2 \<and>
   LRUCache_keys (cache_run (new_LRUCache 1 60000)
     [(0, OpSet [] (1::int)), (1, OpSet ''a'' 2)]) = [[], ''a'']"
  by (simp add: cache_run_def LRUCache_set_def new_LRUCache_def getStats_def Map_has_def
      Map_get_def Map_delete_def Map_size_def Map_first_key_def expired_def Let_def
      LRUCache_keys_def truthy_def)

section \<open>The counters of the rate limiter\<close>

lemma middleware_config [simp]:
  "maxRequests (snd (middleware rl now c)) = maxRequests rl"
  "burstCapacity (snd (middleware rl now c)) = burstCapacity rl"
  "windowMs (snd (middleware rl now c)) = windowMs rl"
  "burstWindowMs (snd (middleware rl now c)) = burstWindowMs rl"
  by (simp_all add: middleware_def Let_def)

lemma middleware_others:
  "c' \<noteq> c \<Longrightarrow> clients (snd (middleware rl now c)) c' = clients rl c'"
  by (simp add: middleware_def Let_def)

lemma middleware_denied:
  "\<not> allowed (fst (middleware rl now c)) \<Longrightarrow>
   clients (snd (middleware rl now c)) c = Some (refreshed rl now c)"
  by (simp add: middleware_def refreshed_def Let_def split: if_splits)

lemma middleware_allowed:
  "allowed (fst (middleware rl now c)) \<Longrightarrow>
   clients (snd (middleware rl now c)) c =
     Some ((refreshed rl now c)\<lparr>count := count (refreshed rl now c) + 1,
                                burstCount := burstCount (refreshed rl now c) + 1\<rparr>) \<and>
   count (refreshed rl now c) < maxRequests rl \<and>
   burstCount (refreshed rl now c) < burstCapacity rl"
  by (simp add: middleware_def refreshed_def Let_def split: if_splits)

lemma refreshed_within:
  assumes "limiter_inv rl" "0 \<le> maxRequests rl" "0 \<le> burstCapacity rl"
  shows "within_capacity rl (refreshed rl now c)"
proof (cases "clients rl c")
  case None
  with assms show ?thesis
    by (simp add: refreshed_def within_capacity_def Let_def)
next
  case (Some i)
  with assms(1) have "within_capacity rl i" by (simp add: limiter_inv_def)
  with Some assms(2,3) show ?thesis
    by (simp add: refreshed_def within_capacity_def Let_def)
qed

lemma limiter_inv_middleware:
  assumes "limiter_inv rl" "0 \<le> maxRequests rl" "0 \<le> burstCapacity rl"
  shows "limiter_inv (snd (middleware rl now c))"
  unfolding limiter_inv_def
proof (intro allI impI)
  fix c' info
  assume s: "clients (snd (middleware rl now c)) c' = Some info"
  have w: "within_capacity rl (refreshed rl now c)" using assms by (rule refreshed_within)
  show "within_capacity (snd (middleware rl now c)) info"
  proof (cases "c' = c")
    case False
    with s assms(1) show ?thesis
      by (simp add: middleware_others limiter_inv_def within_capacity_def)
  next
    case True
    show ?thesis
    proof (cases "allowed (fst (middleware rl now c))")
      case True
      from middleware_allowed [OF True] s \<open>c' = c\<close> w show ?thesis
        by (auto simp: within_capacity_def)
    next
      case False
      from middleware_denied [OF False] s \<open>c' = c\<close> w show ?thesis
        by (auto simp: within_capacity_def)
    qed
  qed
qed

lemma limiter_inv_step:
  assumes "limiter_inv rl" "0 \<le> maxRequests rl" "0 \<le> burstCapacity rl"
  shows "limiter_inv (limiter_step rl e)"
proof (cases "(rl, e)" rule: limiter_step.cases)
  case (1 rl' now c)
  with assms show ?thesis by (simp add: limiter_inv_middleware)
next
  case (2 rl' now)
  with assms(1) show ?thesis
    by (auto simp: limiter_inv_def RateLimiter_cleanupExpired_def within_capacity_def
        split: option.splits if_splits)
next
  case (3 rl' now c)
  with assms(1) show ?thesis
    by (auto simp: limiter_inv_def RateLimiter_reset_def within_capacity_def
        split: option.splits if_splits)
qed

lemma limiter_step_config [simp]:
  "maxRequests (limiter_step rl e) = maxRequests rl"
  "burstCapacity (limiter_step rl e) = burstCapacity rl"
  by (cases "(rl, e)" rule: limiter_step.cases;
      simp add: RateLimiter_cleanupExpired_def RateLimiter_reset_def split: option.split)+

lemma limiter_run_inv:
  "limiter_inv rl \<Longrightarrow> 0 \<le> maxRequests rl \<Longrightarrow> 0 \<le> burstCapacity rl \<Longrightarrow>
   limiter_inv (limiter_run rl ops) \<and> maxRequests (limiter_run rl ops) = maxRequests rl \<and>
   burstCapacity (limiter_run rl ops) = burstCapacity rl"
  unfolding limiter_run_def
  by (induction ops arbitrary: rl) (simp_all add: limiter_inv_step)

text \<open>
  C4. With non-negative capacities, after every sequence of checks (and sweeps and resets)
  from a new limiter, every client's record has \<open>count \<le> maxRequests\<close> and
  \<open>burstCount \<le> burstCapacity\<close>. A check that is allowed found both counters strictly below
  their capacities and adds one to each; a check that is denied stores the record without
  incrementing either counter.
\<close>

theorem C4_counters_within_capacity:
  assumes "0 \<le> maxR" "0 \<le> burstC"
    and "clients (limiter_run (new_RateLimiter maxR w burstC bw) ops) clientId = Some info"
  shows "count info \<le> maxR \<and> burstCount info \<le> burstC \<and>
         (if allowed (fst (middleware rl now c))
          then clients (snd (middleware rl now c)) c =
                 Some ((refreshed rl now c)\<lparr>count := count (refreshed rl now c) + 1,
                          burstCount := burstCount (refreshed rl now c) + 1\<rparr>) \<and>
               count (refreshed rl now c) < maxRequests rl \<and>
               burstCount (refreshed rl now c) < burstCapacity rl
          else clients (snd (middleware rl now c)) c = Some (refreshed rl now c))"
proof -
  let ?rl = "new_RateLimiter maxR w burstC bw"
  have "limiter_inv ?rl" by (simp add: limiter_inv_def new_RateLimiter_def)
  with assms(1,2) have "limiter_inv (limiter_run ?rl ops)"
    "maxRequests (limiter_run ?rl ops) = maxR" "burstCapacity (limiter_run ?rl ops) = burstC"
    using limiter_run_inv [of ?rl ops] by (simp_all add: new_RateLimiter_def)
  with assms(3) have "count info \<le> maxR \<and> burstCount info \<le> burstC"
    by (auto simp: limiter_inv_def within_capacity_def)
  with middleware_allowed [of rl now c] middleware_denied [of rl now c] show ?thesis
    by simp
qed

theorem C4_counters_within_capacity_witness:
  "(0::int) \<le> 2 \<and> (0::int) \<le> 1 \<and>
   clients (limiter_run (new_RateLimiter 2 60000 1 10000)
      [(0, OpCheck ''ip''), (1, OpCheck ''ip''), (10000, OpCheck ''ip'')]) ''ip'' =
     Some \<lparr>count = 2, resetTime = 60000, burstCount = 1, burstResetTime = 20000\<rparr> \<and>
   (2::int) \<le> 2 \<and> (1::int) \<le> 1 \<and>
   \<not> allowed (fst (middleware (limiter_run (new_RateLimiter 2 60000 1 10000)
      [(0, OpCheck ''ip''), (1, OpCheck ''ip''), (10000, OpCheck ''ip'')]) 10001 ''ip''))"
proof -
  let ?ops = "[(0, OpCheck ''ip''), (1, OpCheck ''ip''), (10000, OpCheck ''ip'')]"
  let ?info = "\<lparr>count = 2, resetTime = 60000, burstCount = 1, burstResetTime = 20000\<rparr>"
  have run: "clients (limiter_run (new_RateLimiter 2 60000 1 10000) ?ops) ''ip'' = Some ?info"
    by (simp add: limiter_run_def new_RateLimiter_def middleware_def Let_def)
  have den: "\<not> allowed (fst (middleware (limiter_run (new_RateLimiter 2 60000 1 10000) ?ops)
      10001 ''ip''))"
    by (simp add: limiter_run_def new_RateLimiter_def middleware_def Let_def)
  from C4_counters_within_capacity [of 2 1 60000 10000 ?ops "''ip''" ?info, OF _ _ run] run den
  show ?thesis by simp
qed

section \<open>The invariant of the fetch queue\<close>

declare decimal_digits.simps [simp del]

lemma db_inv_new: "db_inv new_DatabaseService"
  by (simp add: db_inv_def new_DatabaseService_def queued_ids_def inFlight_ids_def)

lemma db_inv_getUserById:
  assumes "db_inv db"
  shows "db_inv (getUserById db uuid uid now)"
proof (cases "pendingRequests db uid")
  case None
  from assms have eq: "\<And>k. (pendingRequests db k \<noteq> None) =
      (k \<in> userId ` set (processingQueue db) \<or> k \<in> set (inFlight_ids db))"
    unfolding db_inv_def queued_ids_def by simp
  from eq [of uid] None
  have fresh: "uid \<notin> userId ` set (processingQueue db)" "uid \<notin> set (inFlight_ids db)"
    by simp_all
  from assms have rest: "distinct (map userId (processingQueue db))"
    "\<And>k. \<not> (k \<in> userId ` set (processingQueue db) \<and> k \<in> set (inFlight_ids db))"
    "\<And>k js. pendingRequests db k = Some js \<Longrightarrow> js \<noteq> [] \<and> (\<forall>j \<in> set js. userId j = k)"
    "isProcessing db = (inFlight db \<noteq> None)"
    unfolding db_inv_def queued_ids_def by auto
  have get: "getUserById db uuid uid now =
      db\<lparr>pendingRequests := (pendingRequests db)
            (uid \<mapsto> [\<lparr>jobId = uuid, userId = uid, jobTimestamp = now\<rparr>]),
         processingQueue := processingQueue db @ [\<lparr>jobId = uuid, userId = uid, jobTimestamp = now\<rparr>]\<rparr>"
    using None by (simp add: getUserById_def Let_def)
  show ?thesis
    unfolding db_inv_def queued_ids_def get
    using fresh rest eq
    by (auto simp: inFlight_ids_def)
next
  case (Some js)
  have get: "getUserById db uuid uid now =
      db\<lparr>pendingRequests := (pendingRequests db)
            (uid \<mapsto> js @ [\<lparr>jobId = uuid, userId = uid, jobTimestamp = now\<rparr>])\<rparr>"
    using Some by (simp add: getUserById_def Let_def)
  from assms Some show ?thesis
    unfolding db_inv_def queued_ids_def get
    by (auto simp: inFlight_ids_def)
qed

lemma db_inv_tick:
  assumes "db_inv db"
  shows "db_inv (processQueue_tick db)"
proof (cases "isProcessing db \<or> processingQueue db = []")
  case True
  with assms show ?thesis by (simp add: processQueue_tick_def)
next
  case False
  then obtain job rest where q: "processingQueue db = job # rest"
    by (cases "processingQueue db") auto
  from False assms have idle: "inFlight db = None" by (simp add: db_inv_def)
  from assms q have "distinct (map userId (job # rest))"
    unfolding db_inv_def queued_ids_def by simp
  then have d: "\<forall>x \<in> set rest. userId x \<noteq> userId job" "distinct (map userId rest)"
    by (auto simp: image_iff)
  from assms q idle have eq: "\<And>k. (pendingRequests db k \<noteq> None) =
      (k = userId job \<or> k \<in> userId ` set rest)"
    unfolding db_inv_def queued_ids_def inFlight_ids_def by simp
  from assms have keyed:
    "\<And>k js. pendingRequests db k = Some js \<Longrightarrow> js \<noteq> [] \<and> (\<forall>j \<in> set js. userId j = k)"
    unfolding db_inv_def by auto
  have tick: "processQueue_tick db =
      db\<lparr>isProcessing := True, processingQueue := rest, inFlight := Some job\<rparr>"
    using False q by (simp add: processQueue_tick_def)
  show ?thesis
    unfolding db_inv_def queued_ids_def inFlight_ids_def tick
    using d eq keyed by auto
qed

lemma processJob_effect:
  "processJob db job =
     (case pendingRequests db (userId job) of
        None \<Rightarrow> db\<lparr>backendCalls := backendCalls db @ [userId job]\<rparr>
      | Some js \<Rightarrow>
          db\<lparr>backendCalls := backendCalls db @ [userId job],
             settled := settled db @ map (\<lambda>j. (j, fetch_outcome db (userId job))) js,
             pendingRequests := (pendingRequests db)(userId job := None)\<rparr>)"
  by (simp add: processJob_def Let_def resolveAllPendingRequests_def
      rejectAllPendingRequests_def fetch_outcome_def split: option.split)

lemma db_inv_resume:
  assumes "db_inv db"
  shows "db_inv (processQueue_resume db)"
proof (cases "inFlight db")
  case None
  with assms show ?thesis by (simp add: processQueue_resume_def)
next
  case (Some job)
  from assms Some have eq: "\<And>k. (pendingRequests db k \<noteq> None) =
      (k \<in> userId ` set (processingQueue db) \<or> k = userId job)"
    unfolding db_inv_def queued_ids_def inFlight_ids_def by simp
  from eq [of "userId job"] obtain js where js: "pendingRequests db (userId job) = Some js"
    by auto
  from assms Some have d: "distinct (map userId (processingQueue db))"
    "\<forall>x \<in> set (processingQueue db). userId x \<noteq> userId job"
    unfolding db_inv_def queued_ids_def inFlight_ids_def by (auto simp: image_iff)
  from assms have keyed:
    "\<And>k js. pendingRequests db k = Some js \<Longrightarrow> js \<noteq> [] \<and> (\<forall>j \<in> set js. userId j = k)"
    unfolding db_inv_def by auto
  have res: "processQueue_resume db =
      db\<lparr>backendCalls := backendCalls db @ [userId job],
         settled := settled db @ map (\<lambda>j. (j, fetch_outcome db (userId job))) js,
         pendingRequests := (pendingRequests db)(userId job := None),
         inFlight := None, isProcessing := False\<rparr>"
    using Some js by (simp add: processQueue_resume_def processJob_effect)
  show ?thesis
    unfolding db_inv_def queued_ids_def inFlight_ids_def res
    using d eq keyed by auto
qed

lemma db_inv_step: "db_inv db \<Longrightarrow> db_inv (db_step db e)"
  by (cases e)
     (simp_all add: db_inv_getUserById db_inv_tick db_inv_resume,
      simp_all add: db_inv_def createUser_def clearData_def queued_ids_def inFlight_ids_def Let_def)

lemma db_inv_run: "db_inv db \<Longrightarrow> db_inv (db_run db evs)"
  unfolding db_run_def by (induction evs arbitrary: db) (simp_all add: db_inv_step)

lemma db_run_Cons: "db_run db (e # evs) = db_run (db_step db e) evs"
  by (simp add: db_run_def)

lemma db_run_snoc: "db_run db (evs @ [e]) = db_step (db_run db evs) e"
  by (simp add: db_run_def)

text \<open>
  C5, as the code has it. In every reachable state of the service the queued jobs have
  distinct user ids, and a user id has a pending group exactly when a job for it is in the
  queue or in flight, never both. The job in flight has left the queue (\<open>shift\<close>) while its
  pending group stays until \<open>processJob\<close> settles it, so queue membership and pending-map
  membership agree only while no job is in flight.
\<close>

theorem C5_queue_and_pending:
  "distinct (queued_ids (db_run new_DatabaseService evs)) \<and>
   ((pendingRequests (db_run new_DatabaseService evs) k \<noteq> None) =
      (k \<in> set (queued_ids (db_run new_DatabaseService evs)) \<or>
       k \<in> set (inFlight_ids (db_run new_DatabaseService evs)))) \<and>
   \<not> (k \<in> set (queued_ids (db_run new_DatabaseService evs)) \<and>
      k \<in> set (inFlight_ids (db_run new_DatabaseService evs))) \<and>
   (isProcessing (db_run new_DatabaseService evs) =
      (inFlight (db_run new_DatabaseService evs) \<noteq> None))"
proof -
  have "db_inv (db_run new_DatabaseService evs)"
    by (rule db_inv_run) (rule db_inv_new)
  then show ?thesis unfolding db_inv_def by blast
qed

theorem C5_queue_and_pending_witness:
  "pendingRequests (db_run new_DatabaseService [GetUserById ''a'' 1 0, IntervalTick,
      GetUserById ''b'' 2 60]) 2 \<noteq> None \<and>
   2 \<in> set (queued_ids (db_run new_DatabaseService [GetUserById ''a'' 1 0, IntervalTick,
      GetUserById ''b'' 2 60])) \<and>
   2 \<notin> set (inFlight_ids (db_run new_DatabaseService [GetUserById ''a'' 1 0, IntervalTick,
      GetUserById ''b'' 2 60])) \<and>
   isProcessing (db_run new_DatabaseService [GetUserById ''a'' 1 0, IntervalTick,
      GetUserById ''b'' 2 60])"
  using C5_queue_and_pending [of "[GetUserById ''a'' 1 0, IntervalTick, GetUserById ''b'' 2 60]" 2]
  by (simp add: db_run_def new_DatabaseService_def getUserById_def processQueue_tick_def
      queued_ids_def inFlight_ids_def Let_def)

text \<open>After a request for user 1 and one interval tick, user 1 has a pending group and is
  not in the queue.\<close>

theorem C5_counterexample:
  "pendingRequests (db_run new_DatabaseService [GetUserById ''a'' 1 0, IntervalTick]) 1 \<noteq> None \<and>
   1 \<notin> set (queued_ids (db_run new_DatabaseService [GetUserById ''a'' 1 0, IntervalTick]))"
  by (simp add: db_run_def new_DatabaseService_def getUserById_def processQueue_tick_def
      queued_ids_def Let_def)

section \<open>One fetch cycle\<close>

lemma resume_effect:
  "processQueue_resume db =
     (case inFlight db of
        None \<Rightarrow> db
      | Some job \<Rightarrow>
          (case pendingRequests db (userId job) of
             None \<Rightarrow> db\<lparr>backendCalls := backendCalls db @ [userId job],
                        inFlight := None, isProcessing := False\<rparr>
           | Some js \<Rightarrow>
               db\<lparr>backendCalls := backendCalls db @ [userId job],
                  settled := settled db @ map (\<lambda>j. (j, fetch_outcome db (userId job))) js,
                  pendingRequests := (pendingRequests db)(userId job := None),
                  inFlight := None, isProcessing := False\<rparr>))"
  by (simp add: processQueue_resume_def processJob_effect split: option.split)

lemma step_pending_kept:
  assumes "pendingRequests db k = Some js" "pendingRequests (db_step db e) k \<noteq> None"
  shows "pendingRequests (db_step db e) k = Some (js @ callers k [e])"
proof (cases e)
  case (GetUserById uuid uid now)
  with assms show ?thesis by (auto simp: getUserById_def Let_def split: option.splits)
next
  case IntervalTick
  with assms show ?thesis by (auto simp: processQueue_tick_def split: list.splits)
next
  case TimerDone
  with assms show ?thesis
    by (auto simp: resume_effect split: option.splits if_splits)
next
  case (CreateUser nm em now)
  with assms show ?thesis by (simp add: createUser_def Let_def)
next
  case ClearData
  with assms show ?thesis by (simp add: clearData_def)
qed

lemma callers_Cons: "callers k (e # evs) = callers k [e] @ callers k evs"
  by (cases e) simp_all

lemma cycle_pending:
  "pendingRequests db k = Some js \<Longrightarrow> pending_throughout db k evs \<Longrightarrow>
   pendingRequests (db_run db evs) k = Some (js @ callers k evs)"
proof (induction evs arbitrary: db js)
  case Nil
  then show ?case by (simp add: db_run_def)
next
  case (Cons e evs)
  from Cons.prems have "pendingRequests (db_step db e) k = Some (js @ callers k [e])"
    by (simp add: step_pending_kept)
  with Cons.prems Cons.IH [of "db_step db e" "js @ callers k [e]"] show ?case
    by (simp add: db_run_Cons callers_Cons [of k e evs])
qed

lemma step_logs_kept:
  assumes "db_inv db" "pendingRequests (db_step db e) k \<noteq> None"
  shows "\<exists>rs ws. backendCalls (db_step db e) = backendCalls db @ rs \<and> k \<notin> set rs \<and>
           settled (db_step db e) = settled db @ ws \<and> (\<forall>w \<in> set ws. userId (fst w) \<noteq> k)"
proof (cases e)
  case (GetUserById uuid uid now)
  then show ?thesis by (simp add: getUserById_def Let_def split: option.split)
next
  case IntervalTick
  then show ?thesis by (simp add: processQueue_tick_def split: list.split)
next
  case TimerDone
  show ?thesis
  proof (cases "inFlight db")
    case None
    with TimerDone show ?thesis by (simp add: resume_effect)
  next
    case (Some job)
    with TimerDone assms(2) have ne: "userId job \<noteq> k"
      by (auto simp: resume_effect split: option.splits)
    show ?thesis
    proof (cases "pendingRequests db (userId job)")
      case None
      with Some TimerDone ne show ?thesis by (simp add: resume_effect)
    next
      case (Some js)
      with assms(1) have "\<forall>j \<in> set js. userId j = userId job" by (simp add: db_inv_def)
      with Some \<open>inFlight db = Some job\<close> TimerDone ne show ?thesis
        by (simp add: resume_effect)
    qed
  qed
next
  case (CreateUser nm em now)
  then show ?thesis by (simp add: createUser_def Let_def)
next
  case ClearData
  then show ?thesis by (simp add: clearData_def)
qed

lemma cycle_logs:
  "db_inv db \<Longrightarrow> pending_throughout db k evs \<Longrightarrow>
   \<exists>rs ws. backendCalls (db_run db evs) = backendCalls db @ rs \<and> k \<notin> set rs \<and>
     settled (db_run db evs) = settled db @ ws \<and> (\<forall>w \<in> set ws. userId (fst w) \<noteq> k)"
proof (induction evs arbitrary: db)
  case Nil
  then show ?case by (simp add: db_run_def)
next
  case (Cons e evs)
  from Cons.prems obtain rs ws where 1:
    "backendCalls (db_step db e) = backendCalls db @ rs" "k \<notin> set rs"
    "settled (db_step db e) = settled db @ ws" "\<forall>w \<in> set ws. userId (fst w) \<noteq> k"
    using step_logs_kept [of db e k] by auto
  from Cons.prems have "db_inv (db_step db e)" "pending_throughout (db_step db e) k evs"
    by (simp_all add: db_inv_step)
  from Cons.IH [OF this] obtain rs' ws' where 2:
    "backendCalls (db_run (db_step db e) evs) = backendCalls (db_step db e) @ rs'" "k \<notin> set rs'"
    "settled (db_run (db_step db e) evs) = settled (db_step db e) @ ws'"
    "\<forall>w \<in> set ws'. userId (fst w) \<noteq> k"
    by auto
  from 1 2 have "backendCalls (db_run db (e # evs)) = backendCalls db @ (rs @ rs') \<and>
      k \<notin> set (rs @ rs') \<and> settled (db_run db (e # evs)) = settled db @ (ws @ ws') \<and>
      (\<forall>w \<in> set (ws @ ws'). userId (fst w) \<noteq> k)"
    by (auto simp: db_run_Cons)
  then show ?case by blast
qed

lemma resolving_step:
  assumes "pendingRequests db k = Some js" "pendingRequests (db_step db e) k = None"
  shows "e = TimerDone \<and> backendCalls (db_step db e) = backendCalls db @ [k] \<and>
         settled (db_step db e) = settled db @ map (\<lambda>j. (j, fetch_outcome db k)) js"
proof (cases e)
  case (GetUserById uuid uid now)
  with assms show ?thesis by (auto simp: getUserById_def Let_def split: option.splits if_splits)
next
  case IntervalTick
  with assms show ?thesis by (auto simp: processQueue_tick_def split: list.splits if_splits)
next
  case TimerDone
  with assms show ?thesis
    by (auto simp: resume_effect split: option.splits if_splits)
next
  case (CreateUser nm em now)
  with assms show ?thesis by (simp add: createUser_def Let_def)
next
  case ClearData
  with assms show ?thesis by (simp add: clearData_def)
qed

lemma fetch_cycle:
  assumes inv: "db_inv db"
    and cold: "pendingRequests db k = None"
    and during: "pending_throughout db k (GetUserById uuid k now # evs)"
    and resolved: "pendingRequests (db_step (db_run db (GetUserById uuid k now # evs)) e) k = None"
  shows "\<exists>rs ws.
      backendCalls (db_step (db_run db (GetUserById uuid k now # evs)) e) =
        backendCalls db @ rs @ [k] \<and> k \<notin> set rs \<and>
      settled (db_step (db_run db (GetUserById uuid k now # evs)) e) =
        settled db @ ws @
        map (\<lambda>job. (job, fetch_outcome (db_run db (GetUserById uuid k now # evs)) k))
          (callers k (GetUserById uuid k now # evs)) \<and>
      (\<forall>w \<in> set ws. userId (fst w) \<noteq> k)"
proof -
  let ?evs = "GetUserById uuid k now # evs"
  let ?db1 = "db_step db (GetUserById uuid k now)"
  have first: "pendingRequests ?db1 k = Some (callers k [GetUserById uuid k now])"
    using cold by (simp add: getUserById_def Let_def)
  from during have "pending_throughout ?db1 k evs" by simp
  with first have "pendingRequests (db_run ?db1 evs) k =
      Some (callers k [GetUserById uuid k now] @ callers k evs)"
    by (rule cycle_pending)
  then have p: "pendingRequests (db_run db ?evs) k = Some (callers k ?evs)"
    by (simp add: db_run_Cons)
  from cycle_logs [OF inv during] obtain rs ws where logs:
    "backendCalls (db_run db ?evs) = backendCalls db @ rs" "k \<notin> set rs"
    "settled (db_run db ?evs) = settled db @ ws" "\<forall>w \<in> set ws. userId (fst w) \<noteq> k"
    by auto
  from resolving_step [OF p resolved] logs show ?thesis by auto
qed

lemma db_run_append: "db_run db (xs @ ys) = db_run (db_run db xs) ys"
  by (simp add: db_run_def)

lemma quiet_step:
  assumes "db_inv db" "pendingRequests db k = None" "callers k [e] = []"
  shows "pendingRequests (db_step db e) k = None \<and>
         calls_for k (db_step db e) = calls_for k db \<and>
         settled_for k (db_step db e) = settled_for k db"
proof (cases e)
  case (GetUserById uuid uid now)
  with assms show ?thesis
    by (auto simp: getUserById_def Let_def calls_for_def settled_for_def split: option.splits if_splits)
next
  case IntervalTick
  with assms show ?thesis
    by (auto simp: processQueue_tick_def calls_for_def settled_for_def split: list.splits)
next
  case TimerDone
  show ?thesis
  proof (cases "inFlight db")
    case None
    with TimerDone assms show ?thesis by (simp add: resume_effect)
  next
    case (Some job)
    with assms(1) have "pendingRequests db (userId job) \<noteq> None"
      by (auto simp: db_inv_def inFlight_ids_def)
    then obtain js where js: "pendingRequests db (userId job) = Some js" by auto
    with assms(2) have ne: "userId job \<noteq> k" by auto
    from assms(1) js have "\<forall>j \<in> set js. userId j = userId job" by (simp add: db_inv_def)
    with ne have "filter (\<lambda>w. userId (fst w) = k) (map (\<lambda>j. (j, out)) js) = []" for out
      by (auto simp: filter_empty_conv)
    with Some js ne TimerDone assms(2) show ?thesis
      by (simp add: resume_effect calls_for_def settled_for_def)
  qed
next
  case (CreateUser nm em now)
  with assms show ?thesis by (simp add: createUser_def Let_def calls_for_def settled_for_def)
next
  case ClearData
  with assms show ?thesis by (simp add: clearData_def calls_for_def settled_for_def)
qed

lemma quiet_run:
  "db_inv db \<Longrightarrow> pendingRequests db k = None \<Longrightarrow> callers k later = [] \<Longrightarrow>
   pendingRequests (db_run db later) k = None \<and>
   calls_for k (db_run db later) = calls_for k db \<and>
   settled_for k (db_run db later) = settled_for k db"
proof (induction later arbitrary: db)
  case Nil
  then show ?case by (simp add: db_run_def)
next
  case (Cons e later)
  from Cons.prems(3) have c: "callers k [e] = []" "callers k later = []"
    using callers_Cons [of k e later] by simp_all
  from quiet_step [OF Cons.prems(1,2) c(1)] Cons.prems(1)
    Cons.IH [of "db_step db e"] c(2)
  show ?case by (simp add: db_run_Cons db_inv_step)
qed

lemma filter_pending_group:
  assumes "db_inv db" "pendingRequests db k = Some js"
  shows "filter (\<lambda>w. userId (fst w) = k) (map (\<lambda>j. (j, out)) js) = map (\<lambda>j. (j, out)) js"
proof -
  from assms have "\<forall>j \<in> set js. userId j = k" by (simp add: db_inv_def)
  then show ?thesis by (simp add: filter_id_conv)
qed

lemma active_step:
  assumes "db_inv db" "pendingRequests db k = Some js" "callers k [e] = []"
  shows "(pendingRequests (db_step db e) k = Some js \<and>
          calls_for k (db_step db e) = calls_for k db \<and>
          settled_for k (db_step db e) = settled_for k db) \<or>
         (pendingRequests (db_step db e) k = None \<and>
          calls_for k (db_step db e) = calls_for k db @ [k] \<and>
          settled_for k (db_step db e) =
            settled_for k db @ map (\<lambda>j. (j, fetch_outcome db k)) js)"
proof (cases "pendingRequests (db_step db e) k")
  case None
  from resolving_step [OF assms(2) None]
  have r: "backendCalls (db_step db e) = backendCalls db @ [k]"
    "settled (db_step db e) = settled db @ map (\<lambda>j. (j, fetch_outcome db k)) js"
    by blast+
  have "calls_for k (db_step db e) = calls_for k db @ [k]"
    by (simp add: calls_for_def r(1))
  moreover have "settled_for k (db_step db e) =
      settled_for k db @ map (\<lambda>j. (j, fetch_outcome db k)) js"
    by (simp add: settled_for_def r(2) filter_pending_group [OF assms(1,2)])
  ultimately show ?thesis using None by simp
next
  case (Some js')
  then have ne: "pendingRequests (db_step db e) k \<noteq> None" by simp
  from step_pending_kept [OF assms(2) ne] assms(3)
  have p: "pendingRequests (db_step db e) k = Some js" by simp
  from step_logs_kept [OF assms(1) ne] obtain rs ws where
    "backendCalls (db_step db e) = backendCalls db @ rs" "k \<notin> set rs"
    "settled (db_step db e) = settled db @ ws" "\<forall>w \<in> set ws. userId (fst w) \<noteq> k"
    by auto
  then have "calls_for k (db_step db e) = calls_for k db"
    "settled_for k (db_step db e) = settled_for k db"
    by (auto simp: calls_for_def settled_for_def filter_empty_conv)
  with p show ?thesis by simp
qed

lemma active_run:
  "db_inv db \<Longrightarrow> pendingRequests db k = Some js \<Longrightarrow> callers k later = [] \<Longrightarrow>
   (pendingRequests (db_run db later) k = Some js \<and>
    calls_for k (db_run db later) = calls_for k db \<and>
    settled_for k (db_run db later) = settled_for k db) \<or>
   (pendingRequests (db_run db later) k = None \<and>
    calls_for k (db_run db later) = calls_for k db @ [k] \<and>
    (\<exists>n. settled_for k (db_run db later) =
       settled_for k db @ map (\<lambda>j. (j, fetch_outcome (db_run db (take n later)) k)) js))"
proof (induction later arbitrary: db)
  case Nil
  then show ?case by (simp add: db_run_def)
next
  case (Cons e later)
  from Cons.prems(3) have c: "callers k [e] = []" "callers k later = []"
    using callers_Cons [of k e later] by simp_all
  from Cons.prems(1) have inv: "db_inv (db_step db e)" by (rule db_inv_step)
  from active_step [OF Cons.prems(1,2) c(1)] show ?case
  proof
    assume a: "pendingRequests (db_step db e) k = Some js \<and>
          calls_for k (db_step db e) = calls_for k db \<and>
          settled_for k (db_step db e) = settled_for k db"
    from a have p: "pendingRequests (db_step db e) k = Some js" by simp
    from Cons.IH [OF inv p c(2)] show ?thesis
    proof (elim disjE conjE exE)
      assume "pendingRequests (db_run (db_step db e) later) k = Some js"
        "calls_for k (db_run (db_step db e) later) = calls_for k (db_step db e)"
        "settled_for k (db_run (db_step db e) later) = settled_for k (db_step db e)"
      with a show ?thesis by (simp add: db_run_Cons)
    next
      fix n
      assume r: "pendingRequests (db_run (db_step db e) later) k = None"
        "calls_for k (db_run (db_step db e) later) = calls_for k (db_step db e) @ [k]"
        "settled_for k (db_run (db_step db e) later) =
           settled_for k (db_step db e) @
           map (\<lambda>j. (j, fetch_outcome (db_run (db_step db e) (take n later)) k)) js"
      then have "settled_for k (db_run db (e # later)) =
           settled_for k db @
           map (\<lambda>j. (j, fetch_outcome (db_run db (take (Suc n) (e # later))) k)) js"
        using a by (simp add: db_run_Cons)
      with r a show ?thesis by (auto simp: db_run_Cons simp del: take_Suc_Cons)
    qed
  next
    assume a: "pendingRequests (db_step db e) k = None \<and>
          calls_for k (db_step db e) = calls_for k db @ [k] \<and>
          settled_for k (db_step db e) =
            settled_for k db @ map (\<lambda>j. (j, fetch_outcome db k)) js"
    from a have p: "pendingRequests (db_step db e) k = None" by simp
    from quiet_run [OF inv p c(2)] a
    have q: "pendingRequests (db_run db (e # later)) k = None"
      "calls_for k (db_run db (e # later)) = calls_for k db @ [k]"
      "settled_for k (db_run db (e # later)) =
         settled_for k db @ map (\<lambda>j. (j, fetch_outcome (db_run db (take 0 (e # later))) k)) js"
      by (simp_all add: db_run_Cons, simp add: db_run_def)
    from q(3) have "\<exists>n. settled_for k (db_run db (e # later)) =
         settled_for k db @ map (\<lambda>j. (j, fetch_outcome (db_run db (take n (e # later))) k)) js"
      by (rule exI)
    with q show ?thesis by simp
  qed
qed

lemma drain_empties:
  "\<not> isProcessing db \<Longrightarrow> inFlight db = None \<Longrightarrow> processingQueue db = q \<Longrightarrow>
   processingQueue (db_run db (drain (length q))) = [] \<and>
   inFlight (db_run db (drain (length q))) = None"
proof (induction q arbitrary: db)
  case Nil
  then show ?case by (simp add: db_run_def)
next
  case (Cons job q)
  let ?db2 = "db_step (db_step db IntervalTick) TimerDone"
  from Cons.prems have tick: "db_step db IntervalTick =
      db\<lparr>isProcessing := True, processingQueue := q, inFlight := Some job\<rparr>"
    by (simp add: processQueue_tick_def)
  then have 2: "\<not> isProcessing ?db2" "inFlight ?db2 = None" "processingQueue ?db2 = q"
    by (simp_all add: resume_effect split: option.split)
  from Cons.IH [OF 2] show ?case by (simp add: db_run_Cons)
qed

lemma worker_rounds_idle:
  assumes "db_inv db"
  shows "processingQueue (db_run db (worker_rounds db)) = [] \<and>
         inFlight (db_run db (worker_rounds db)) = None"
proof (cases "inFlight db")
  case None
  with assms have "\<not> isProcessing db" by (simp add: db_inv_def)
  from drain_empties [OF this None refl] None show ?thesis
    by (simp add: worker_rounds_def)
next
  case (Some job)
  let ?db1 = "db_step db TimerDone"
  from Some have 1: "\<not> isProcessing ?db1" "inFlight ?db1 = None"
    "processingQueue ?db1 = processingQueue db"
    by (simp_all add: resume_effect split: option.split)
  from drain_empties [OF 1(1,2) refl] 1(3) Some show ?thesis
    by (simp add: worker_rounds_def db_run_Cons)
qed

lemma worker_rounds_clear:
  assumes "db_inv db"
  shows "pendingRequests (db_run db (worker_rounds db)) k = None"
proof -
  from assms have "db_inv (db_run db (worker_rounds db))" by (rule db_inv_run)
  with worker_rounds_idle [OF assms] show ?thesis
    by (auto simp: db_inv_def queued_ids_def inFlight_ids_def)
qed

lemma worker_events_drain: "list_all worker_event (drain n)"
  by (induction n) (simp_all add: worker_event_def)

lemma worker_events_rounds: "list_all worker_event (worker_rounds db)"
  by (simp add: worker_rounds_def worker_events_drain worker_event_def split: option.split)

lemma worker_events_callers: "list_all worker_event evs \<Longrightarrow> callers k evs = []"
  by (induction evs) (auto simp: worker_event_def)

lemma worker_events_store:
  "list_all worker_event evs \<Longrightarrow> mockUsers (db_run db evs) = mockUsers db"
proof (induction evs arbitrary: db)
  case Nil
  show ?case by (simp add: db_run_def)
next
  case (Cons e evs)
  then have "mockUsers (db_step db e) = mockUsers db"
    by (auto simp: worker_event_def processQueue_tick_def resume_effect
        split: list.split option.split)
  with Cons show ?case by (simp add: db_run_Cons)
qed

lemma worker_events_take: "list_all worker_event evs \<Longrightarrow> list_all worker_event (take n evs)"
  by (auto simp: list_all_iff dest: in_set_takeD)

text \<open>
  C1. From a reachable state in which the user id has no pending group, take a first
  \<open>getUserById\<close> call for it followed by any events (further calls for the same id among
  them) during which its pending group is not cleared: these are the N callers. However the
  run goes on without a new call for that id, \<open>mockUsers\<close> is looked up for the id at most
  once in the whole run, and exactly once when the group has been cleared; the callers are then all
  settled, in call order, with one and the same outcome, and no other waiter of that id is.
  The fetch does resolve: when the worker runs until it is idle the group is cleared, the id
  has been looked up exactly once, and every caller holds the outcome of that one lookup.
\<close>

theorem C1_one_fetch_one_outcome:
  assumes "db = db_run new_DatabaseService history"
    and "pendingRequests db k = None"
    and "pending_throughout db k (GetUserById uuid k now # evs)"
    and "callers k later = []"
  shows "(\<exists>out.
            calls_for k (db_run db (GetUserById uuid k now # evs @ later)) =
              calls_for k db @
              (if pendingRequests (db_run db (GetUserById uuid k now # evs @ later)) k = None
               then [k] else []) \<and>
            settled_for k (db_run db (GetUserById uuid k now # evs @ later)) =
              settled_for k db @
              (if pendingRequests (db_run db (GetUserById uuid k now # evs @ later)) k = None
               then map (\<lambda>job. (job, out)) (callers k (GetUserById uuid k now # evs))
               else [])) \<and>
         pendingRequests (db_run db (GetUserById uuid k now # evs @
             worker_rounds (db_run db (GetUserById uuid k now # evs)))) k = None \<and>
         calls_for k (db_run db (GetUserById uuid k now # evs @
             worker_rounds (db_run db (GetUserById uuid k now # evs)))) =
           calls_for k db @ [k] \<and>
         settled_for k (db_run db (GetUserById uuid k now # evs @
             worker_rounds (db_run db (GetUserById uuid k now # evs)))) =
           settled_for k db @
           map (\<lambda>job. (job, fetch_outcome (db_run db (GetUserById uuid k now # evs)) k))
             (callers k (GetUserById uuid k now # evs))"
proof -
  let ?calls = "GetUserById uuid k now # evs"
  let ?s = "db_run db ?calls"
  let ?js = "callers k ?calls"
  from assms(1) have inv0: "db_inv db" by (simp add: db_inv_run db_inv_new)
  then have inv: "db_inv ?s" by (rule db_inv_run)
  have first: "pendingRequests (db_step db (GetUserById uuid k now)) k =
      Some (callers k [GetUserById uuid k now])"
    using assms(2) by (simp add: getUserById_def Let_def)
  from assms(3) have "pending_throughout (db_step db (GetUserById uuid k now)) k evs" by simp
  with first have "pendingRequests (db_run (db_step db (GetUserById uuid k now)) evs) k =
      Some (callers k [GetUserById uuid k now] @ callers k evs)"
    by (rule cycle_pending)
  then have p: "pendingRequests ?s k = Some ?js" by (simp add: db_run_Cons)
  from cycle_logs [OF inv0 assms(3)] obtain rs ws where
    "backendCalls ?s = backendCalls db @ rs" "k \<notin> set rs"
    "settled ?s = settled db @ ws" "\<forall>w \<in> set ws. userId (fst w) \<noteq> k"
    by auto
  then have logs: "calls_for k ?s = calls_for k db" "settled_for k ?s = settled_for k db"
    by (auto simp: calls_for_def settled_for_def filter_empty_conv)
  have run: "db_run db (?calls @ xs) = db_run ?s xs" for xs
    by (rule db_run_append)
  have general: "\<exists>out.
      calls_for k (db_run ?s later) =
        calls_for k db @ (if pendingRequests (db_run ?s later) k = None then [k] else []) \<and>
      settled_for k (db_run ?s later) =
        settled_for k db @
        (if pendingRequests (db_run ?s later) k = None then map (\<lambda>job. (job, out)) ?js else [])"
    using active_run [OF inv p assms(4)] logs by auto
  let ?w = "worker_rounds ?s"
  have wc: "callers k ?w = []"
    by (rule worker_events_callers) (rule worker_events_rounds)
  have cleared: "pendingRequests (db_run ?s ?w) k = None"
    using inv by (rule worker_rounds_clear)
  have store: "fetch_outcome (db_run ?s (take n ?w)) k = fetch_outcome ?s k" for n
    using worker_events_store [OF worker_events_take [OF worker_events_rounds], of ?s n ?s]
    by (simp add: fetch_outcome_def)
  from active_run [OF inv p wc] cleared logs store
  have done_calls: "calls_for k (db_run ?s ?w) = calls_for k db @ [k]"
    and done_settled: "settled_for k (db_run ?s ?w) =
      settled_for k db @ map (\<lambda>job. (job, fetch_outcome ?s k)) ?js"
    by auto
  from general cleared done_calls done_settled show ?thesis
    unfolding append_Cons [symmetric] run by blast
qed

theorem C1_one_fetch_one_outcome_witness:
  "pendingRequests new_DatabaseService 1 = None \<and>
   pending_throughout new_DatabaseService 1
     [GetUserById ''a'' 1 0, GetUserById ''b'' 1 10, IntervalTick, GetUserById ''c'' 1 60,
      GetUserById ''d'' 2 70] \<and>
   callers 1 [TimerDone, IntervalTick, TimerDone, IntervalTick] = [] \<and>
   calls_for 1 (db_run new_DatabaseService
     ([GetUserById ''a'' 1 0, GetUserById ''b'' 1 10, IntervalTick, GetUserById ''c'' 1 60,
       GetUserById ''d'' 2 70] @ [TimerDone, IntervalTick, TimerDone, IntervalTick])) = [1] \<and>
   worker_rounds (db_run new_DatabaseService
     [GetUserById ''a'' 1 0, GetUserById ''b'' 1 10, IntervalTick, GetUserById ''c'' 1 60,
      GetUserById ''d'' 2 70]) = [TimerDone, IntervalTick, TimerDone] \<and>
   backendCalls (db_run new_DatabaseService
     ([GetUserById ''a'' 1 0, GetUserById ''b'' 1 10, IntervalTick, GetUserById ''c'' 1 60,
       GetUserById ''d'' 2 70] @ [TimerDone, IntervalTick, TimerDone])) = [1, 2] \<and>
   settled_for 1 (db_run new_DatabaseService
     ([GetUserById ''a'' 1 0, GetUserById ''b'' 1 10, IntervalTick, GetUserById ''c'' 1 60,
       GetUserById ''d'' 2 70] @ [TimerDone, IntervalTick, TimerDone])) =
     map (\<lambda>job. (job, fetch_outcome new_DatabaseService 1))
       [\<lparr>jobId = ''a'', userId = 1, jobTimestamp = 0\<rparr>,
        \<lparr>jobId = ''b'', userId = 1, jobTimestamp = 10\<rparr>,
        \<lparr>jobId = ''c'', userId = 1, jobTimestamp = 60\<rparr>]"
proof -
  let ?evs = "[GetUserById ''b'' 1 10, IntervalTick, GetUserById ''c'' 1 60,
      GetUserById ''d'' 2 70]"
  let ?later = "[TimerDone, IntervalTick, TimerDone, IntervalTick]"
  have h1: "new_DatabaseService = db_run new_DatabaseService []" by (simp add: db_run_def)
  have h2: "pendingRequests new_DatabaseService 1 = None"
    by (simp add: new_DatabaseService_def)
  have h3: "pending_throughout new_DatabaseService 1 (GetUserById ''a'' 1 0 # ?evs)"
    by (simp add: new_DatabaseService_def getUserById_def processQueue_tick_def Let_def)
  have h4: "callers 1 ?later = []" by simp
  from C1_one_fetch_one_outcome [OF h1 h2 h3 h4] h2 h3 h4 show ?thesis
    by (simp add: db_run_def new_DatabaseService_def getUserById_def processQueue_tick_def
        resume_effect fetch_outcome_def calls_for_def settled_for_def worker_rounds_def
        initialUsers_def Let_def)
qed

section \<open>A failed fetch\<close>

lemma drain_calls:
  "\<not> isProcessing db \<Longrightarrow> inFlight db = None \<Longrightarrow> processingQueue db = q \<Longrightarrow>
   backendCalls (db_run db (drain (length q))) = backendCalls db @ map userId q"
proof (induction q arbitrary: db)
  case Nil
  then show ?case by (simp add: db_run_def)
next
  case (Cons job q)
  let ?db2 = "db_step (db_step db IntervalTick) TimerDone"
  from Cons.prems have tick: "db_step db IntervalTick =
      db\<lparr>isProcessing := True, processingQueue := q, inFlight := Some job\<rparr>"
    by (simp add: processQueue_tick_def)
  then have 2: "\<not> isProcessing ?db2" "inFlight ?db2 = None" "processingQueue ?db2 = q"
    "backendCalls ?db2 = backendCalls db @ [userId job]"
    by (simp_all add: resume_effect split: option.split)
  from Cons.IH [OF 2(1-3)] 2(4) show ?case
    by (simp add: db_run_Cons)
qed

text \<open>
  C8. When the job in flight is for a user id that \<open>mockUsers\<close> does not hold, its timer
  rejects every waiter of the pending group with the same not-found error and removes the
  group. A later \<open>getUserById\<close> for the same id is not answered from the failure: it creates a
  new group with a new queued job, and once the worker has gone through the queue
  \<open>mockUsers\<close> has been looked up for the id a second time. The route handler of a rejected
  waiter leaves the cache as it is.
\<close>

theorem C8_failed_fetch_is_not_cached:
  assumes "db = db_run new_DatabaseService history"
    and "inFlight db = Some job"
    and "userId job = k"
    and "mockUsers db k = None"
    and "pendingRequests db k = Some js"
  shows "settled (processQueue_resume db) =
           settled db @
           map (\<lambda>j. (j, Rejected (Error (''User with ID '' @ number_to_string k @ '' not found'')))) js \<and>
         pendingRequests (processQueue_resume db) k = None \<and>
         k \<notin> set (queued_ids (processQueue_resume db)) \<and>
         pendingRequests (getUserById (processQueue_resume db) uuid k now) k =
           Some [\<lparr>jobId = uuid, userId = k, jobTimestamp = now\<rparr>] \<and>
         processingQueue (getUserById (processQueue_resume db) uuid k now) =
           processingQueue db @ [\<lparr>jobId = uuid, userId = k, jobTimestamp = now\<rparr>] \<and>
         settled (getUserById (processQueue_resume db) uuid k now) =
           settled (processQueue_resume db) \<and>
         backendCalls (db_run (getUserById (processQueue_resume db) uuid k now)
             (drain (Suc (length (processingQueue db))))) =
           backendCalls db @ [k] @ queued_ids db @ [k] \<and>
         users_get_continue t (j, Rejected err) app = app"
proof -
  let ?r = "processQueue_resume db"
  let ?job = "\<lparr>jobId = uuid, userId = k, jobTimestamp = now\<rparr>"
  from assms(1) have inv: "db_inv db" by (simp add: db_inv_run db_inv_new)
  have r: "?r = db\<lparr>backendCalls := backendCalls db @ [k],
      settled := settled db @ map (\<lambda>j. (j, fetch_outcome db k)) js,
      pendingRequests := (pendingRequests db)(k := None),
      inFlight := None, isProcessing := False\<rparr>"
    using assms(2,3,5) by (simp add: resume_effect)
  have out: "fetch_outcome db k =
      Rejected (Error (''User with ID '' @ number_to_string k @ '' not found''))"
    using assms(4) by (simp add: fetch_outcome_def)
  from inv assms(2,3) have nq: "k \<notin> set (queued_ids db)"
    by (auto simp: db_inv_def inFlight_ids_def)
  have g: "getUserById ?r uuid k now =
      ?r\<lparr>pendingRequests := (pendingRequests ?r)(k \<mapsto> [?job]),
         processingQueue := processingQueue ?r @ [?job]\<rparr>"
    by (simp add: r getUserById_def Let_def)
  have "backendCalls (db_run (getUserById ?r uuid k now)
      (drain (length (processingQueue db @ [?job])))) =
      backendCalls (getUserById ?r uuid k now) @ map userId (processingQueue db @ [?job])"
    by (rule drain_calls) (simp_all add: g, simp_all add: r)
  then have d: "backendCalls (db_run (getUserById ?r uuid k now)
      (drain (Suc (length (processingQueue db))))) = backendCalls db @ [k] @ queued_ids db @ [k]"
    by (simp add: g queued_ids_def, simp add: r)
  have c: "users_get_continue t (j, Rejected err) app = app"
    by (simp add: users_get_continue_def)
  have 1: "settled ?r = settled db @
      map (\<lambda>j. (j, Rejected (Error (''User with ID '' @ number_to_string k @ '' not found'')))) js"
    by (simp add: r out)
  have 2: "pendingRequests ?r k = None" by (simp add: r)
  have 3: "k \<notin> set (queued_ids ?r)" using nq by (simp add: r queued_ids_def)
  have 4: "pendingRequests (getUserById ?r uuid k now) k = Some [?job]" by (simp add: g)
  have 5: "processingQueue (getUserById ?r uuid k now) = processingQueue db @ [?job]"
    by (simp add: g, simp add: r)
  have 6: "settled (getUserById ?r uuid k now) = settled ?r" by (simp add: g)
  from 1 2 3 4 5 6 d c show ?thesis by blast
qed

theorem C8_failed_fetch_is_not_cached_witness:
  "inFlight (db_run new_DatabaseService [GetUserById ''a'' 999 0, GetUserById ''b'' 2 5,
      IntervalTick, GetUserById ''c'' 999 60]) =
     Some \<lparr>jobId = ''a'', userId = 999, jobTimestamp = 0\<rparr> \<and>
   mockUsers (db_run new_DatabaseService [GetUserById ''a'' 999 0, GetUserById ''b'' 2 5,
      IntervalTick, GetUserById ''c'' 999 60]) 999 = None \<and>
   pendingRequests (db_run new_DatabaseService [GetUserById ''a'' 999 0, GetUserById ''b'' 2 5,
      IntervalTick, GetUserById ''c'' 999 60]) 999 =
     Some [\<lparr>jobId = ''a'', userId = 999, jobTimestamp = 0\<rparr>,
           \<lparr>jobId = ''c'', userId = 999, jobTimestamp = 60\<rparr>] \<and>
   settled (processQueue_resume (db_run new_DatabaseService [GetUserById ''a'' 999 0,
      GetUserById ''b'' 2 5, IntervalTick, GetUserById ''c'' 999 60])) =
     [(\<lparr>jobId = ''a'', userId = 999, jobTimestamp = 0\<rparr>,
       Rejected (Error ''User with ID 999 not found'')),
      (\<lparr>jobId = ''c'', userId = 999, jobTimestamp = 60\<rparr>,
       Rejected (Error ''User with ID 999 not found''))] \<and>
   backendCalls (db_run (getUserById (processQueue_resume (db_run new_DatabaseService
      [GetUserById ''a'' 999 0, GetUserById ''b'' 2 5, IntervalTick,
       GetUserById ''c'' 999 60])) ''d'' 999 300) (drain 2)) = [999, 2, 999]"
proof -
  let ?h = "[GetUserById ''a'' 999 0, GetUserById ''b'' 2 5, IntervalTick,
      GetUserById ''c'' 999 60]"
  let ?db = "db_run new_DatabaseService ?h"
  let ?a = "\<lparr>jobId = ''a'', userId = 999, jobTimestamp = 0\<rparr>"
  let ?c = "\<lparr>jobId = ''c'', userId = 999, jobTimestamp = 60\<rparr>"
  have h2: "inFlight ?db = Some ?a"
    by (simp add: db_run_def new_DatabaseService_def getUserById_def processQueue_tick_def Let_def)
  have h3: "userId ?a = 999" by simp
  have h4: "mockUsers ?db 999 = None"
    by (simp add: db_run_def new_DatabaseService_def getUserById_def processQueue_tick_def
        initialUsers_def Let_def)
  have h5: "pendingRequests ?db 999 = Some [?a, ?c]"
    by (simp add: db_run_def new_DatabaseService_def getUserById_def processQueue_tick_def Let_def)
  have q: "processingQueue ?db = [\<lparr>jobId = ''b'', userId = 2, jobTimestamp = 5\<rparr>]"
    "backendCalls ?db = []" "settled ?db = []"
    by (simp_all add: db_run_def new_DatabaseService_def getUserById_def processQueue_tick_def
        Let_def)
  have n: "number_to_string 999 = ''999''"
    by (simp add: number_to_string_def decimal_digits.simps digit_char_def)
  from C8_failed_fetch_is_not_cached [OF refl h2 h3 h4 h5, of "''d''" 300]
    h2 h4 h5 q n show ?thesis
    by (simp add: queued_ids_def numeral_2_eq_2)
qed

section \<open>The cache and the waiters\<close>

lemma dbService_app_continue [simp]: "dbService (app_continue now ws app) = dbService app"
  unfolding app_continue_def
  by (induction ws arbitrary: app) (simp_all add: users_get_continue_def split: outcome.split)









end
